theory Spec2Isabelle
  imports Complex_Main "HOL-Library.Multiset"
begin

section \<open>Python values and errors\<close>

text \<open>
  The notebooks compute with Python floats. Two readings are kept apart. For the algebraic
  statements about the summary (the variance identity, the mean at equal parameters, the
  cells as state transformers) and for the inference run, a float is modelled as the real
  it approximates, and the statements are about the exact arithmetic of the formulas. For
  the bounds and the monotonicity of the mean, which rounding decides, the cell is
  modelled in IEEE double arithmetic in a section of its own.

  What Python raises is kept as a value: a float division by zero raises
  \<open>ZeroDivisionError\<close>, \<open>math.sqrt\<close> of a negative number raises
  \<open>ValueError\<close>, reading an unbound global raises \<open>NameError\<close>, indexing a
  list outside its range raises \<open>IndexError\<close>, and the inference library raises
  \<open>ValueError\<close> when its argument validation fails and \<open>RuntimeError\<close> when
  two sample sites of one trace share a name, a tensor assignment has mismatched shapes
  or \<open>index_select\<close> is given an index outside the tensor.
\<close>

datatype py_error = NameError | ZeroDivisionError | ValueError | IndexError | RuntimeError

definition float_div :: "real \<Rightarrow> real \<Rightarrow> py_error + real" where
  "float_div x y = (if y = 0 then Inl ZeroDivisionError else Inr (x / y))"

definition math_sqrt :: "real \<Rightarrow> py_error + real" where
  "math_sqrt x = (if x < 0 then Inl ValueError else Inr (sqrt x))"

section \<open>Posterior summary\<close>

text \<open>
  The three expressions of the post-processing cells, as functions of the two learned
  parameters, in exact arithmetic:
  \<^verbatim>\<open>
  inferred_mean = alpha_q / (alpha_q + beta_q)
  factor = beta_q / (alpha_q * (1.0 + alpha_q + beta_q))
  inferred_std = inferred_mean * math.sqrt(factor)
  \<close>
\<close>

definition inferred_mean :: "real \<Rightarrow> real \<Rightarrow> py_error + real" where
  "inferred_mean alpha_q beta_q = float_div alpha_q (alpha_q + beta_q)"

definition factor :: "real \<Rightarrow> real \<Rightarrow> py_error + real" where
  "factor alpha_q beta_q = float_div beta_q (alpha_q * (1 + alpha_q + beta_q))"

definition inferred_std :: "real \<Rightarrow> real \<Rightarrow> py_error + real" where
  "inferred_std alpha_q beta_q =
     (case inferred_mean alpha_q beta_q of
        Inl e \<Rightarrow> Inl e
      | Inr m \<Rightarrow>
          (case factor alpha_q beta_q of
             Inl e \<Rightarrow> Inl e
           | Inr fc \<Rightarrow>
               (case math_sqrt fc of
                  Inl e \<Rightarrow> Inl e
                | Inr s \<Rightarrow> Inr (m * s))))"

text \<open>
  The variance of a Beta distribution as the specification writes it, for comparison
  with the simplified expression of the code.
\<close>

definition beta_variance :: "real \<Rightarrow> real \<Rightarrow> real" where
  "beta_variance alpha_q beta_q =
     (alpha_q * beta_q) / ((alpha_q + beta_q)\<^sup>2 * (alpha_q + beta_q + 1))"

subsection \<open>The cells as statements over the notebook's globals\<close>

text \<open>
  In the notebook the formulas are top-level statements: they read the globals
  \<open>alpha_q\<close>, \<open>beta_q\<close> (and \<open>inferred_mean\<close>) and assign \<open>inferred_mean\<close>,
  \<open>factor\<close> and \<open>inferred_std\<close>. The namespace is a record of the five globals, each
  unbound (\<open>None\<close>) or bound to a float; every other piece of interpreter state is the
  record's extension \<open>more\<close>. A statement returns the exception it raised, if any,
  together with the namespace as the statement left it: an assignment made before the
  exception stays made.
\<close>

record namespace =
  ns_alpha_q :: "real option"
  ns_beta_q :: "real option"
  ns_inferred_mean :: "real option"
  ns_factor :: "real option"
  ns_inferred_std :: "real option"

definition lookup_global :: "real option \<Rightarrow> py_error + real" where
  "lookup_global v = (case v of None \<Rightarrow> Inl NameError | Some x \<Rightarrow> Inr x)"

definition cell_inferred_mean ::
  "'a namespace_scheme \<Rightarrow> py_error option \<times> 'a namespace_scheme" where
  "cell_inferred_mean ns =
     (case lookup_global (ns_alpha_q ns) of
        Inl e \<Rightarrow> (Some e, ns)
      | Inr a \<Rightarrow>
          (case lookup_global (ns_beta_q ns) of
             Inl e \<Rightarrow> (Some e, ns)
           | Inr b \<Rightarrow>
               (case inferred_mean a b of
                  Inl e \<Rightarrow> (Some e, ns)
                | Inr m \<Rightarrow> (None, ns\<lparr>ns_inferred_mean := Some m\<rparr>))))"

definition stmt_factor ::
  "'a namespace_scheme \<Rightarrow> py_error option \<times> 'a namespace_scheme" where
  "stmt_factor ns =
     (case lookup_global (ns_beta_q ns) of
        Inl e \<Rightarrow> (Some e, ns)
      | Inr b \<Rightarrow>
          (case lookup_global (ns_alpha_q ns) of
             Inl e \<Rightarrow> (Some e, ns)
           | Inr a \<Rightarrow>
               (case factor a b of
                  Inl e \<Rightarrow> (Some e, ns)
                | Inr fc \<Rightarrow> (None, ns\<lparr>ns_factor := Some fc\<rparr>))))"

definition stmt_inferred_std ::
  "'a namespace_scheme \<Rightarrow> py_error option \<times> 'a namespace_scheme" where
  "stmt_inferred_std ns =
     (case lookup_global (ns_inferred_mean ns) of
        Inl e \<Rightarrow> (Some e, ns)
      | Inr m \<Rightarrow>
          (case lookup_global (ns_factor ns) of
             Inl e \<Rightarrow> (Some e, ns)
           | Inr fc \<Rightarrow>
               (case math_sqrt fc of
                  Inl e \<Rightarrow> (Some e, ns)
                | Inr s \<Rightarrow> (None, ns\<lparr>ns_inferred_std := Some (m * s)\<rparr>))))"

text \<open>Statements in sequence: the first exception ends the run.\<close>

definition seq_stmt ::
  "('s \<Rightarrow> py_error option \<times> 's) \<Rightarrow> ('s \<Rightarrow> py_error option \<times> 's) \<Rightarrow>
   's \<Rightarrow> py_error option \<times> 's" where
  "seq_stmt c1 c2 s = (case c1 s of (Some e, s') \<Rightarrow> (Some e, s') | (None, s') \<Rightarrow> c2 s')"

definition cell_inferred_std ::
  "'a namespace_scheme \<Rightarrow> py_error option \<times> 'a namespace_scheme" where
  "cell_inferred_std = seq_stmt stmt_factor stmt_inferred_std"

definition summarize ::
  "'a namespace_scheme \<Rightarrow> py_error option \<times> 'a namespace_scheme" where
  "summarize = seq_stmt cell_inferred_mean cell_inferred_std"

section \<open>The mean in double arithmetic\<close>

text \<open>
  \<open>alpha_q = pyro.param("alpha_q").item()\<close> yields a Python float: a double that
  holds the value of an entry of a float32 tensor. The cell
  \<^verbatim>\<open>
  inferred_mean = alpha_q / (alpha_q + beta_q)
  \<close>
  is then one double addition and one double division, each the exact result rounded to
  the nearest double, ties to the even significand. A finite double is modelled by the
  real number it denotes (the two zeros are not told apart); the infinities and NaN are
  values of their own.

  Rounding to a binary format with \<open>p\<close> significand bits and least normal exponent
  \<open>emin\<close>: the spacing of the format around \<open>x\<close> is two to the power of the
  exponent of \<open>x\<close> (at least \<open>emin\<close>) minus \<open>p - 1\<close>, and \<open>x\<close> goes to the
  nearest multiple of the spacing. Doubles have 53 bits and least exponent -1022, and a
  result of magnitude \<open>2 ^ 1024\<close> or more becomes an infinity; float32 has 24 bits,
  least exponent -126 and magnitudes below \<open>2 ^ 128\<close>.
\<close>

datatype pyfloat = Finite real | PosInf | NegInf | NaN

definition binade :: "real \<Rightarrow> int" where
  "binade x = \<lfloor>log 2 \<bar>x\<bar>\<rfloor>"

definition round_half_even :: "real \<Rightarrow> int" where
  "round_half_even x =
     (let n = \<lfloor>x\<rfloor>; d = x - of_int n
      in if d < 1 / 2 then n else if 1 / 2 < d then n + 1 else if even n then n else n + 1)"

definition ulp :: "nat \<Rightarrow> int \<Rightarrow> real \<Rightarrow> real" where
  "ulp p emin x = 2 powr of_int (max (binade x) emin - (int p - 1))"

definition round_to :: "nat \<Rightarrow> int \<Rightarrow> real \<Rightarrow> real" where
  "round_to p emin x =
     (if x = 0 then 0 else of_int (round_half_even (x / ulp p emin x)) * ulp p emin x)"

definition round_double :: "real \<Rightarrow> pyfloat" where
  "round_double x =
     (let r = round_to 53 (- 1022) x
      in if 2 ^ 1024 \<le> r then PosInf else if r \<le> - (2 ^ 1024) then NegInf else Finite r)"

definition is_float32 :: "real \<Rightarrow> bool" where
  "is_float32 x \<longleftrightarrow> round_to 24 (- 126) x = x \<and> \<bar>x\<bar> < 2 ^ 128"

text \<open>
  Double addition follows IEEE 754. Python's \<open>/\<close> on floats raises
  \<open>ZeroDivisionError\<close> for a zero divisor, whatever the dividend, and follows
  IEEE 754 otherwise.
\<close>

fun double_add :: "pyfloat \<Rightarrow> pyfloat \<Rightarrow> pyfloat" where
  "double_add (Finite x) (Finite y) = round_double (x + y)"
| "double_add NaN y = NaN"
| "double_add x NaN = NaN"
| "double_add PosInf NegInf = NaN"
| "double_add NegInf PosInf = NaN"
| "double_add PosInf y = PosInf"
| "double_add x PosInf = PosInf"
| "double_add NegInf y = NegInf"
| "double_add x NegInf = NegInf"

fun double_div :: "pyfloat \<Rightarrow> pyfloat \<Rightarrow> py_error + pyfloat" where
  "double_div x (Finite y) =
     (if y = 0 then Inl ZeroDivisionError
      else (case x of
              Finite x' \<Rightarrow> Inr (round_double (x' / y))
            | PosInf \<Rightarrow> Inr (if 0 < y then PosInf else NegInf)
            | NegInf \<Rightarrow> Inr (if 0 < y then NegInf else PosInf)
            | NaN \<Rightarrow> Inr NaN))"
| "double_div (Finite x) PosInf = Inr (Finite 0)"
| "double_div (Finite x) NegInf = Inr (Finite 0)"
| "double_div x y = Inr NaN"

definition inferred_mean_double :: "pyfloat \<Rightarrow> pyfloat \<Rightarrow> py_error + pyfloat" where
  "inferred_mean_double alpha_q beta_q = double_div alpha_q (double_add alpha_q beta_q)"

abbreviation rd :: "real \<Rightarrow> real" where
  "rd \<equiv> round_to 53 (- 1022)"

section \<open>Distributions, sample sites and traces\<close>

text \<open>
  The notebooks call two distributions of the library, \<open>dist.Beta\<close> and
  \<open>dist.Bernoulli\<close>; the subsampling plate of the second notebook adds the
  library's own index distribution. Both notebooks run
  \<open>pyro.enable_validation(True)\<close> before the loop, so a distribution checks its
  arguments when it is built and its sample when a log-density is asked for.

  The log-densities are the textbook ones in exact arithmetic. The logarithm of the Gamma
  function, which gives the normalising constant of the Beta density, is a parameter
  \<open>lg\<close> of the model. The densities mean what they say for arguments strictly inside
  the unit interval, which is where the theorems use them; the infinities floats produce
  at the boundary are not represented.
\<close>

datatype distribution = Beta real real | Bernoulli real | Subsample nat nat

definition dist_Beta :: "real \<Rightarrow> real \<Rightarrow> py_error + distribution" where
  "dist_Beta concentration1 concentration0 =
     (if 0 < concentration1 \<and> 0 < concentration0
      then Inr (Beta concentration1 concentration0) else Inl ValueError)"

definition dist_Bernoulli :: "real \<Rightarrow> py_error + distribution" where
  "dist_Bernoulli probs = (if 0 \<le> probs \<and> probs \<le> 1 then Inr (Bernoulli probs) else Inl ValueError)"

definition beta_log_density :: "(real \<Rightarrow> real) \<Rightarrow> real \<Rightarrow> real \<Rightarrow> real \<Rightarrow> real" where
  "beta_log_density lg a b x =
     (a - 1) * ln x + (b - 1) * ln (1 - x) + lg (a + b) - lg a - lg b"

definition bernoulli_log_density :: "real \<Rightarrow> real \<Rightarrow> real" where
  "bernoulli_log_density p x = x * ln p + (1 - x) * ln (1 - p)"

fun in_support :: "distribution \<Rightarrow> real \<Rightarrow> bool" where
  "in_support (Beta a b) x = (0 \<le> x \<and> x \<le> 1)"
| "in_support (Bernoulli p) x = (x = 0 \<or> x = 1)"
| "in_support (Subsample n m) x = True"

fun log_density :: "(real \<Rightarrow> real) \<Rightarrow> distribution \<Rightarrow> real \<Rightarrow> real" where
  "log_density lg (Beta a b) x = beta_log_density lg a b x"
| "log_density lg (Bernoulli p) x = bernoulli_log_density p x"
| "log_density lg (Subsample n m) x = 0"

text \<open>
  A sample site as the trace records it: its name, its distribution, its value (a tensor,
  as the list of its entries), whether the value was observed, and the scale the enclosing
  plate gives its log-density. \<open>pyro.sample\<close> adds a site to the trace being recorded
  and refuses a name the trace already has. The value of a site that is not observed is
  decided by the engine (drawn, or replayed from the guide's trace), so it is an argument.
\<close>

record site =
  site_name :: string
  site_fn :: distribution
  site_value :: "real list"
  site_is_observed :: bool
  site_scale :: real

type_synonym trace = "site list"

definition pyro_sample ::
  "string \<Rightarrow> distribution \<Rightarrow> real list \<Rightarrow> bool \<Rightarrow> real \<Rightarrow> trace \<Rightarrow> py_error + trace" where
  "pyro_sample name fn val is_obs scale tr =
     (if name \<in> set (map site_name tr) then Inl RuntimeError
      else Inr (tr @ [\<lparr>site_name = name, site_fn = fn, site_value = val,
                        site_is_observed = is_obs, site_scale = scale\<rparr>]))"

text \<open>
  The log-density of a site is the scaled sum of the log-densities of the entries of its
  value, each validated against the support; the log-density of a trace is the sum over
  its sites.
\<close>

fun log_prob :: "(real \<Rightarrow> real) \<Rightarrow> distribution \<Rightarrow> real list \<Rightarrow> py_error + real" where
  "log_prob lg d [] = Inr 0"
| "log_prob lg d (x # xs) =
     (if in_support d x
      then (case log_prob lg d xs of Inl e \<Rightarrow> Inl e | Inr p \<Rightarrow> Inr (log_density lg d x + p))
      else Inl ValueError)"

fun log_prob_sum :: "(real \<Rightarrow> real) \<Rightarrow> trace \<Rightarrow> py_error + real" where
  "log_prob_sum lg [] = Inr 0"
| "log_prob_sum lg (s # tr) =
     (case log_prob lg (site_fn s) (site_value s) of
        Inl e \<Rightarrow> Inl e
      | Inr p \<Rightarrow>
          (case log_prob_sum lg tr of
             Inl e \<Rightarrow> Inl e
           | Inr q \<Rightarrow> Inr (site_scale s * p + q)))"

section \<open>The model\<close>

text \<open>
  \<open>"obs_{}".format(i)\<close> writes the index in decimal.
\<close>

function str_nat :: "nat \<Rightarrow> string" where
  "str_nat n =
     (if n < 10 then [char_of (48 + n)]
      else str_nat (n div 10) @ [char_of (48 + n mod 10)])"
  by pat_completeness auto
termination
  by (relation "measure id") auto

declare str_nat.simps [simp del]

text \<open>
  The model of the main notebook:
  \<^verbatim>\<open>
  def model(data):
      alpha0 = torch.tensor(10.)
      beta0 = torch.tensor(10.)
      f = pyro.sample("latent_fairness", dist.Beta(alpha0, beta0))
      for i, j in enumerate(data):
          pyro.sample("obs_{}".format(i), dist.Bernoulli(f), obs=data[i])
  \<close>
  The value \<open>f\<close> of the latent site is the one the engine replays from the guide.
\<close>

definition alpha0 :: real where
  "alpha0 = 10"

definition beta0 :: real where
  "beta0 = 10"

fun obs_loop :: "real \<Rightarrow> real list \<Rightarrow> (nat \<times> real) list \<Rightarrow> trace \<Rightarrow> py_error + trace" where
  "obs_loop f data [] tr = Inr tr"
| "obs_loop f data ((i, j) # rest) tr =
     (case dist_Bernoulli f of
        Inl e \<Rightarrow> Inl e
      | Inr d \<Rightarrow>
          (if i < length data
           then (case pyro_sample (''obs_'' @ str_nat i) d [data ! i] True 1 tr of
                   Inl e \<Rightarrow> Inl e
                 | Inr tr' \<Rightarrow> obs_loop f data rest tr')
           else Inl IndexError))"

definition model :: "real \<Rightarrow> real list \<Rightarrow> py_error + trace" where
  "model f data =
     (case dist_Beta alpha0 beta0 of
        Inl e \<Rightarrow> Inl e
      | Inr prior \<Rightarrow>
          (case pyro_sample ''latent_fairness'' prior [f] False 1 [] of
             Inl e \<Rightarrow> Inl e
           | Inr tr \<Rightarrow> obs_loop f data (enumerate 0 data) tr))"

definition model_log_prob :: "(real \<Rightarrow> real) \<Rightarrow> real \<Rightarrow> real list \<Rightarrow> py_error + real" where
  "model_log_prob lg f data =
     (case model f data of Inl e \<Rightarrow> Inl e | Inr tr \<Rightarrow> log_prob_sum lg tr)"

text \<open>
  The log-probability of the model as the specification words it: the log-density of the
  fairness under the Beta prior plus the sum of the Bernoulli log-densities of the
  observations.
\<close>

definition logProbModel :: "(real \<Rightarrow> real) \<Rightarrow> real \<Rightarrow> real list \<Rightarrow> real" where
  "logProbModel lg fairness observations =
     beta_log_density lg 10 10 fairness +
     (\<Sum>x\<leftarrow>observations. bernoulli_log_density fairness x)"

text \<open>The toy data of the main notebook: six heads, then four tails.\<close>

definition data_main :: "real list" where
  "data_main = replicate 6 1 @ replicate 4 0"

text \<open>The sites the model records, named for the statements below.\<close>

definition latent_site :: "distribution \<Rightarrow> real \<Rightarrow> site" where
  "latent_site d f = \<lparr>site_name = ''latent_fairness'', site_fn = d, site_value = [f],
                        site_is_observed = False, site_scale = 1\<rparr>"

definition obs_site :: "real \<Rightarrow> nat \<Rightarrow> real \<Rightarrow> site" where
  "obs_site f i x = \<lparr>site_name = ''obs_'' @ str_nat i, site_fn = Bernoulli f, site_value = [x],
                       site_is_observed = True, site_scale = 1\<rparr>"

section \<open>The model with a subsampling plate\<close>

text \<open>
  The second notebook builds the data as a tensor and observes a subsample of it:
  \<^verbatim>\<open>
  data = torch.zeros(1000)
  data[:600] = torch.ones(600)

  with pyro.iarange('data_loop', size=100, subsample_size=50) as ind:
      pyro.sample("obs", dist.Bernoulli(f), obs=data.index_select(0, ind))
  \<close>
  Assigning to the slice \<open>data[:k]\<close> overwrites the first \<open>k\<close> entries (all of them
  when the tensor is shorter) with a tensor of that many entries, or with a one-entry
  tensor broadcast to them; other shapes are refused. \<open>index_select\<close> reads the
  entries at the given indices and refuses an index outside the tensor.
\<close>

definition zeros :: "nat \<Rightarrow> real list" where
  "zeros n = replicate n 0"

definition ones :: "nat \<Rightarrow> real list" where
  "ones n = replicate n 1"

definition setitem_prefix :: "nat \<Rightarrow> real list \<Rightarrow> real list \<Rightarrow> py_error + real list" where
  "setitem_prefix k src t =
     (let m = min k (length t)
      in if length src = m then Inr (src @ drop k t)
         else if length src = 1 then Inr (replicate m (hd src) @ drop k t)
         else Inl RuntimeError)"

definition data_variant :: "py_error + real list" where
  "data_variant = setitem_prefix 600 (ones 600) (zeros 1000)"

definition index_select :: "real list \<Rightarrow> nat list \<Rightarrow> py_error + real list" where
  "index_select t ind =
     (if list_all (\<lambda>i. i < length t) ind then Inr (map (\<lambda>i. t ! i) ind) else Inl RuntimeError)"

text \<open>
  The plate draws a random permutation of \<open>range(size)\<close> and hands out its first
  \<open>subsample_size\<close> entries as the indices (all of \<open>range(size)\<close> when the
  subsample is not smaller); the draw is recorded as a site of its own, whose log-density
  is zero. The permutation is the engine's choice, so it is an argument.
  Inside the plate a site's log-density is scaled by \<open>size / subsample_size\<close>.
\<close>

definition iarange :: "nat list \<Rightarrow> nat \<Rightarrow> nat \<Rightarrow> nat list" where
  "iarange perm sz subsample_size =
     (if sz \<le> subsample_size then [0..<sz] else take subsample_size perm)"

definition model_variant :: "nat list \<Rightarrow> real \<Rightarrow> real list \<Rightarrow> py_error + trace" where
  "model_variant perm f data =
     (case dist_Beta alpha0 beta0 of
        Inl e \<Rightarrow> Inl e
      | Inr prior \<Rightarrow>
          (case pyro_sample ''latent_fairness'' prior [f] False 1 [] of
             Inl e \<Rightarrow> Inl e
           | Inr tr1 \<Rightarrow>
               (let ind = iarange perm 100 50
                in case pyro_sample ''data_loop'' (Subsample 100 50) (map real ind) False 1 tr1 of
                     Inl e \<Rightarrow> Inl e
                   | Inr tr2 \<Rightarrow>
                       (case dist_Bernoulli f of
                          Inl e \<Rightarrow> Inl e
                        | Inr d \<Rightarrow>
                            (case index_select data ind of
                               Inl e \<Rightarrow> Inl e
                             | Inr obs \<Rightarrow> pyro_sample ''obs'' d obs True (100 / 50) tr2)))))"

section \<open>The guide and the parameter store\<close>

text \<open>
  \<^verbatim>\<open>
  def guide(data):
      alpha_q = pyro.param("alpha_q", torch.tensor(15.0), constraint=constraints.positive)
      beta_q = pyro.param("beta_q", torch.tensor(15.0), constraint=constraints.positive)
      pyro.sample("latent_fairness", dist.Beta(alpha_q, beta_q))
  \<close>
  A parameter with the constraint \<open>positive\<close> is stored by its logarithm, the
  unconstrained value the optimizer works on, and read back through the exponential. The
  first \<open>pyro.param\<close> of a name stores the initial value; a later one ignores it and
  reads the store. Both calls of the notebooks pass the initial value 15.0.
\<close>

type_synonym param_store = "string \<rightharpoonup> real"

definition pyro_param :: "string \<Rightarrow> real \<Rightarrow> param_store \<Rightarrow> real \<times> param_store" where
  "pyro_param name init ps =
     (case ps name of
        None \<Rightarrow> (exp (ln init), ps(name \<mapsto> ln init))
      | Some u \<Rightarrow> (exp u, ps))"

definition param_value :: "param_store \<Rightarrow> string \<Rightarrow> real option" where
  "param_value ps name = map_option exp (ps name)"

definition guide :: "real \<Rightarrow> param_store \<Rightarrow> py_error + trace \<times> param_store" where
  "guide f ps =
     (let (alpha_q, ps1) = pyro_param ''alpha_q'' 15 ps;
          (beta_q, ps2) = pyro_param ''beta_q'' 15 ps1
      in case dist_Beta alpha_q beta_q of
           Inl e \<Rightarrow> Inl e
         | Inr q \<Rightarrow>
             (case pyro_sample ''latent_fairness'' q [f] False 1 [] of
                Inl e \<Rightarrow> Inl e
              | Inr tr \<Rightarrow> Inr (tr, ps2)))"

section \<open>The optimization loop\<close>

text \<open>
  What the inference engine decides in a run is collected in a record: the log-Gamma
  function of its distributions, the value it draws for the latent site in each step, the
  permutation the plate draws in each step, and the new unconstrained value its optimizer
  (Adam on a gradient estimate of the loss) gives each parameter in each step. The
  theorems hold for every such engine.
\<close>

record engine =
  lgamma :: "real \<Rightarrow> real"
  draw :: "nat \<Rightarrow> real"
  randperm :: "nat \<Rightarrow> nat list"
  update :: "nat \<Rightarrow> string \<Rightarrow> real \<Rightarrow> real"

text \<open>
  One \<open>svi.step\<close>: run the guide, run the model on the guide's value of the latent
  site, form the loss \<open>-(log p - log q)\<close> from the two traces, and let the optimizer
  move every parameter of the store. The step returns the loss.
\<close>

definition svi_step ::
  "engine \<Rightarrow> (real \<Rightarrow> py_error + trace) \<Rightarrow> nat \<Rightarrow> param_store \<Rightarrow> py_error + real \<times> param_store" where
  "svi_step eng model_fn k ps =
     (case guide (draw eng k) ps of
        Inl e \<Rightarrow> Inl e
      | Inr (guide_trace, ps') \<Rightarrow>
          (case model_fn (draw eng k) of
             Inl e \<Rightarrow> Inl e
           | Inr model_trace \<Rightarrow>
               (case log_prob_sum (lgamma eng) model_trace of
                  Inl e \<Rightarrow> Inl e
                | Inr lpm \<Rightarrow>
                    (case log_prob_sum (lgamma eng) guide_trace of
                       Inl e \<Rightarrow> Inl e
                     | Inr lpq \<Rightarrow>
                         Inr (- (lpm - lpq),
                              \<lambda>name. map_option (update eng k name) (ps' name))))))"

text \<open>
  \<^verbatim>\<open>
  for step in tnrange(n_steps, desc="SVI Example"):
      svi.step(data)
  \<close>
  The loop variable runs through \<open>range(n_steps)\<close>; the loss a step returns is dropped.
  The loop state carries, beside the parameter store, a count of the calls of
  \<open>svi.step\<close> made so far. An exception in a step ends the loop.
\<close>

function svi_loop ::
  "(nat \<Rightarrow> param_store \<Rightarrow> py_error + real \<times> param_store) \<Rightarrow> nat \<Rightarrow> nat \<Rightarrow>
   nat \<times> param_store \<Rightarrow> py_error + nat \<times> param_store" where
  "svi_loop step_fn n_steps step (calls, ps) =
     (if step < n_steps
      then (case step_fn step ps of
              Inl e \<Rightarrow> Inl e
            | Inr (loss, ps') \<Rightarrow> svi_loop step_fn n_steps (Suc step) (Suc calls, ps'))
      else Inr (calls, ps))"
  by pat_completeness auto
termination
  by (relation "measure (\<lambda>(step_fn, n_steps, step, s). n_steps - step)") auto

declare svi_loop.simps [simp del]

text \<open>
  The two runs. \<open>pyro.clear_param_store()\<close> empties the store before the loop; the main
  notebook takes 1000 steps on its ten observations, the second notebook 5000 steps on
  its tensor.
\<close>

definition n_steps_main :: nat where
  "n_steps_main = 1000"

definition n_steps_variant :: nat where
  "n_steps_variant = 5000"

definition run_main :: "engine \<Rightarrow> py_error + nat \<times> param_store" where
  "run_main eng =
     svi_loop (svi_step eng (\<lambda>f. model f data_main)) n_steps_main 0 (0, Map.empty)"

definition run_variant :: "engine \<Rightarrow> py_error + nat \<times> param_store" where
  "run_variant eng =
     (case data_variant of
        Inl e \<Rightarrow> Inl e
      | Inr data \<Rightarrow>
          svi_loop (\<lambda>k. svi_step eng (\<lambda>f. model_variant (randperm eng k) f data) k)
            n_steps_variant 0 (0, Map.empty))"

text \<open>
  The store each call of \<open>svi.step\<close> leaves, when the calls are made one after the
  other from a given store: the trajectory against which the loop is compared.
\<close>

primrec store_after ::
  "(nat \<Rightarrow> param_store \<Rightarrow> py_error + real \<times> param_store) \<Rightarrow> param_store \<Rightarrow> nat \<Rightarrow> param_store" where
  "store_after step_fn ps 0 = ps"
| "store_after step_fn ps (Suc k) =
     (case step_fn k (store_after step_fn ps k) of
        Inl e \<Rightarrow> store_after step_fn ps k
      | Inr (loss, ps') \<Rightarrow> ps')"

text \<open>
  The invariant of the parameter store: both variational parameters are registered and
  the values read back from the store are strictly positive.
\<close>

definition params_positive :: "param_store \<Rightarrow> bool" where
  "params_positive ps =
     (case (param_value ps ''alpha_q'', param_value ps ''beta_q'') of
        (Some a, Some b) \<Rightarrow> 0 < a \<and> 0 < b
      | _ \<Rightarrow> False)"

text \<open>
  A concrete engine, for instantiating the statements about runs: it always draws one
  half, the plate always draws the reversed range, and the optimizer lowers every
  unconstrained value by one in each step.
\<close>

definition constant_engine :: engine where
  "constant_engine =
     \<lparr>lgamma = (\<lambda>x. 0), draw = (\<lambda>k. 1 / 2), randperm = (\<lambda>k. rev [0..<100]),
      update = (\<lambda>k name u. u - 1)\<rparr>"

section \<open>Properties of the posterior summary\<close>

lemma inferred_mean_pos:
  "0 < alpha_q \<Longrightarrow> 0 < beta_q \<Longrightarrow>
   inferred_mean alpha_q beta_q = Inr (alpha_q / (alpha_q + beta_q))"
  by (simp add: inferred_mean_def float_div_def)

lemma factor_pos:
  "0 < alpha_q \<Longrightarrow> 0 < beta_q \<Longrightarrow>
   factor alpha_q beta_q = Inr (beta_q / (alpha_q * (1 + alpha_q + beta_q)))"
  by (simp add: factor_def float_div_def)

lemma std_algebra:
  fixes a b :: real
  assumes a: "0 < a" and b: "0 < b"
  shows "a / (a + b) * sqrt (b / (a * (1 + a + b))) =
         sqrt ((a * b) / ((a + b)\<^sup>2 * (a + b + 1)))"
proof -
  have m: "0 \<le> a / (a + b)" using a b by simp
  have "sqrt ((a / (a + b))\<^sup>2) = a / (a + b)"
    using m by (rule real_sqrt_abs2 [unfolded power2_eq_square [symmetric], THEN trans, OF abs_of_nonneg])
  then have "a / (a + b) * sqrt (b / (a * (1 + a + b))) =
        sqrt ((a / (a + b))\<^sup>2) * sqrt (b / (a * (1 + a + b)))"
    by (simp only:)
  also have "\<dots> = sqrt ((a / (a + b))\<^sup>2 * (b / (a * (1 + a + b))))"
    by (rule real_sqrt_mult [symmetric])
  also have "(a / (a + b))\<^sup>2 * (b / (a * (1 + a + b))) =
             (a * b) / ((a + b)\<^sup>2 * (a + b + 1))"
  proof -
    have nz: "a \<noteq> 0" using a by simp
    have "(a / (a + b))\<^sup>2 * (b / (a * (1 + a + b))) =
          (a\<^sup>2 * b) / ((a + b)\<^sup>2 * (a * (1 + a + b)))"
      by (simp add: power_divide)
    also have "\<dots> = (a * (a * b)) / (a * ((a + b)\<^sup>2 * (a + b + 1)))"
      by (simp add: power2_eq_square algebra_simps)
    also have "\<dots> = (a * b) / ((a + b)\<^sup>2 * (a + b + 1))"
      using nz by (rule mult_divide_mult_cancel_left)
    finally show ?thesis .
  qed
  finally show ?thesis .
qed

text \<open>
  Claim C1. For positive \<open>alpha_q\<close> and \<open>beta_q\<close> the code's mean is
  \<open>alpha_q / (alpha_q + beta_q)\<close>, and the code's standard deviation, computed as
  mean times the square root of \<open>beta_q / (alpha_q * (1 + alpha_q + beta_q))\<close>, is
  the square root of the Beta variance
  \<open>alpha_q * beta_q / ((alpha_q + beta_q)\<^sup>2 * (alpha_q + beta_q + 1))\<close>; neither
  expression raises.
\<close>

theorem inferred_std_is_sqrt_variance:
  assumes "0 < alpha_q" and "0 < beta_q"
  shows "inferred_mean alpha_q beta_q = Inr (alpha_q / (alpha_q + beta_q)) \<and>
         inferred_std alpha_q beta_q = Inr (sqrt (beta_variance alpha_q beta_q))"
proof -
  have fc: "0 \<le> beta_q / (alpha_q * (1 + alpha_q + beta_q))"
    using assms by simp
  have "inferred_std alpha_q beta_q =
        Inr (alpha_q / (alpha_q + beta_q) *
             sqrt (beta_q / (alpha_q * (1 + alpha_q + beta_q))))"
    using fc by (simp add: inferred_std_def inferred_mean_pos factor_pos assms
        math_sqrt_def not_less del: zero_le_divide_iff)
  then show ?thesis
    using std_algebra [OF assms] by (simp add: inferred_mean_pos assms beta_variance_def)
qed

theorem inferred_std_is_sqrt_variance_witness:
  "(0::real) < 16 \<and> (0::real) < 14 \<and>
   inferred_mean 16 14 = Inr (8 / 15) \<and>
   inferred_std 16 14 = Inr (sqrt (beta_variance 16 14)) \<and>
   beta_variance 16 14 = 56 / 6975"
  using inferred_std_is_sqrt_variance [of 16 14] by (simp add: beta_variance_def)

text \<open>
  In exact arithmetic the quotient is strictly inside the unit interval and strictly
  monotone in each parameter. The cell computes it in doubles, where both can fail; that
  is the subject of the section on double arithmetic below.
\<close>

lemma exact_mean_in_unit_interval:
  assumes "0 < alpha_q" and "0 < beta_q"
  shows "\<exists>m. inferred_mean alpha_q beta_q = Inr m \<and> 0 < m \<and> m < 1"
  using assms by (simp add: inferred_mean_pos)

lemma exact_mean_strictly_monotone:
  fixes a1 a2 b :: real
  assumes "0 < a1" and "a1 < a2" and "0 < b"
  shows "a1 / (a1 + b) < a2 / (a2 + b)" and "b / (b + a2) < b / (b + a1)"
  using assms by (simp_all add: field_simps)

text \<open>
  Claim C6. For every positive \<open>alpha_q\<close>, when \<open>beta_q\<close> equals \<open>alpha_q\<close> the
  mean is exactly one half.
\<close>

theorem inferred_mean_equal_params:
  assumes "0 < alpha_q" and "beta_q = alpha_q"
  shows "inferred_mean alpha_q beta_q = Inr (1 / 2)"
  using assms by (simp add: inferred_mean_pos)

theorem inferred_mean_equal_params_witness:
  "(0::real) < 15 \<and> (15::real) = 15 \<and> inferred_mean 15 15 = Inr (1 / 2)"
  using inferred_mean_equal_params [of 15 15] by simp

lemma summarize_unfold:
  "summarize ns =
    (case ns_alpha_q ns of
       None \<Rightarrow> (Some NameError, ns)
     | Some a \<Rightarrow>
         (case ns_beta_q ns of
            None \<Rightarrow> (Some NameError, ns)
          | Some b \<Rightarrow>
              if a + b = 0 then (Some ZeroDivisionError, ns)
              else if a * (1 + a + b) = 0
              then (Some ZeroDivisionError, ns\<lparr>ns_inferred_mean := Some (a / (a + b))\<rparr>)
              else if b / (a * (1 + a + b)) < 0
              then (Some ValueError,
                    ns\<lparr>ns_inferred_mean := Some (a / (a + b)),
                       ns_factor := Some (b / (a * (1 + a + b)))\<rparr>)
              else (None,
                    ns\<lparr>ns_inferred_mean := Some (a / (a + b)),
                       ns_factor := Some (b / (a * (1 + a + b))),
                       ns_inferred_std :=
                         Some (a / (a + b) * sqrt (b / (a * (1 + a + b))))\<rparr>)))"
  by (simp add: summarize_def seq_stmt_def cell_inferred_mean_def cell_inferred_std_def
      stmt_factor_def stmt_inferred_std_def lookup_global_def inferred_mean_def factor_def
      float_div_def math_sqrt_def split: option.splits)

text \<open>
  Claim C9. The summary cells are deterministic and idempotent, and touch nothing but
  their outputs: running them again on the namespace they left gives the same result
  and the same namespace; \<open>alpha_q\<close>, \<open>beta_q\<close> and the rest of the interpreter state
  are unchanged; and two namespaces that agree on \<open>alpha_q\<close> and \<open>beta_q\<close> get the
  same outcome and, when no exception is raised, identical mean and standard deviation.
\<close>

theorem summarize_deterministic_idempotent:
  fixes ns ns1 ns2 :: "'a namespace_scheme"
  shows
  "summarize (snd (summarize ns)) = summarize ns \<and>
   ns_alpha_q (snd (summarize ns)) = ns_alpha_q ns \<and>
   ns_beta_q (snd (summarize ns)) = ns_beta_q ns \<and>
   namespace.more (snd (summarize ns)) = namespace.more ns \<and>
   (ns_alpha_q ns1 = ns_alpha_q ns2 \<and> ns_beta_q ns1 = ns_beta_q ns2 \<longrightarrow>
      fst (summarize ns1) = fst (summarize ns2) \<and>
      (fst (summarize ns1) = None \<longrightarrow>
         ns_inferred_mean (snd (summarize ns1)) = ns_inferred_mean (snd (summarize ns2)) \<and>
         ns_inferred_std (snd (summarize ns1)) = ns_inferred_std (snd (summarize ns2))))"
  by (simp add: summarize_unfold split: option.splits)

theorem summarize_deterministic_idempotent_witness:
  "ns_alpha_q \<lparr>ns_alpha_q = Some 16, ns_beta_q = Some 14, ns_inferred_mean = None,
               ns_factor = None, ns_inferred_std = None\<rparr> =
   ns_alpha_q \<lparr>ns_alpha_q = Some 16, ns_beta_q = Some 14, ns_inferred_mean = Some 7,
               ns_factor = Some 0, ns_inferred_std = Some 3\<rparr> \<and>
   ns_beta_q \<lparr>ns_alpha_q = Some 16, ns_beta_q = Some 14, ns_inferred_mean = None,
              ns_factor = None, ns_inferred_std = None\<rparr> =
   ns_beta_q \<lparr>ns_alpha_q = Some 16, ns_beta_q = Some 14, ns_inferred_mean = Some 7,
              ns_factor = Some 0, ns_inferred_std = Some 3\<rparr> \<and>
   fst (summarize \<lparr>ns_alpha_q = Some 16, ns_beta_q = Some 14, ns_inferred_mean = None,
                   ns_factor = None, ns_inferred_std = None\<rparr>) = None \<and>
   ns_inferred_mean (snd (summarize \<lparr>ns_alpha_q = Some 16, ns_beta_q = Some 14,
       ns_inferred_mean = None, ns_factor = None, ns_inferred_std = None\<rparr>)) =
   ns_inferred_mean (snd (summarize \<lparr>ns_alpha_q = Some 16, ns_beta_q = Some 14,
       ns_inferred_mean = Some 7, ns_factor = Some 0, ns_inferred_std = Some 3\<rparr>)) \<and>
   ns_inferred_std (snd (summarize \<lparr>ns_alpha_q = Some 16, ns_beta_q = Some 14,
       ns_inferred_mean = None, ns_factor = None, ns_inferred_std = None\<rparr>)) =
   ns_inferred_std (snd (summarize \<lparr>ns_alpha_q = Some 16, ns_beta_q = Some 14,
       ns_inferred_mean = Some 7, ns_factor = Some 0, ns_inferred_std = Some 3\<rparr>)) \<and>
   ns_inferred_mean (snd (summarize \<lparr>ns_alpha_q = Some 16, ns_beta_q = Some 14,
       ns_inferred_mean = Some 7, ns_factor = Some 0, ns_inferred_std = Some 3\<rparr>)) =
     Some (8 / 15)"
  using summarize_deterministic_idempotent
    [of "\<lparr>ns_alpha_q = Some 16, ns_beta_q = Some 14, ns_inferred_mean = None,
          ns_factor = None, ns_inferred_std = None\<rparr>"
        "\<lparr>ns_alpha_q = Some 16, ns_beta_q = Some 14, ns_inferred_mean = None,
          ns_factor = None, ns_inferred_std = None\<rparr>"
        "\<lparr>ns_alpha_q = Some 16, ns_beta_q = Some 14, ns_inferred_mean = Some 7,
          ns_factor = Some 0, ns_inferred_std = Some 3\<rparr>"]
  by (simp add: summarize_unfold)

section \<open>Properties of the mean in double arithmetic\<close>

subsection \<open>Rounding is monotone and exact on representable numbers\<close>

lemma rhe_of_int [simp]: "round_half_even (of_int n) = n"
  by (simp add: round_half_even_def)

lemma rhe_bounds: "x - 1 / 2 \<le> of_int (round_half_even x)" "of_int (round_half_even x) \<le> x + 1 / 2"
  unfolding round_half_even_def Let_def by (auto; linarith)+

lemma rhe_mono: "x \<le> y \<Longrightarrow> round_half_even x \<le> round_half_even y"
proof -
  assume xy: "x \<le> y"
  have fl: "\<lfloor>x\<rfloor> \<le> \<lfloor>y\<rfloor>" using xy by (rule floor_mono)
  show ?thesis
  proof (cases "\<lfloor>x\<rfloor> = \<lfloor>y\<rfloor>")
    case True
    then show ?thesis using xy unfolding round_half_even_def Let_def by auto
  next
    case False
    then have "\<lfloor>x\<rfloor> + 1 \<le> \<lfloor>y\<rfloor>" using fl by simp
    moreover have "round_half_even x \<le> \<lfloor>x\<rfloor> + 1" unfolding round_half_even_def Let_def by auto
    moreover have "\<lfloor>y\<rfloor> \<le> round_half_even y" unfolding round_half_even_def Let_def by auto
    ultimately show ?thesis by linarith
  qed
qed

lemma binade_bounds:
  assumes "0 < x"
  shows "2 powr of_int (binade x) \<le> x" and "x < 2 powr of_int (binade x + 1)"
proof -
  have "of_int (binade x) \<le> log 2 x" using assms by (simp add: binade_def)
  then show "2 powr of_int (binade x) \<le> x"
    using assms by (simp add: le_log_iff)
  have "log 2 x < of_int (binade x + 1)" using assms by (simp add: binade_def)
  then show "x < 2 powr of_int (binade x + 1)"
    using assms by (simp add: log_less_iff)
qed

lemma binade_eq:
  assumes "0 < x" "2 powr of_int k \<le> x" "x < 2 powr of_int (k + 1)"
  shows "binade x = k"
proof -
  have "of_int k \<le> log 2 x" using assms by (simp add: le_log_iff)
  moreover have "log 2 x < of_int k + 1" using assms by (simp add: log_less_iff)
  ultimately show ?thesis using assms(1) by (simp add: binade_def floor_eq_iff)
qed

lemma binade_mono: "0 < x \<Longrightarrow> x \<le> y \<Longrightarrow> binade x \<le> binade y"
  by (simp add: binade_def floor_mono log_le_cancel_iff)


lemma ulp_pos [simp]: "0 < ulp p emin x"
  by (simp add: ulp_def)

lemma ulp_nonneg [simp]: "0 \<le> ulp p emin x"
  by (simp add: ulp_def)

lemma ulp_nonzero [simp]: "ulp p emin x \<noteq> 0"
  by (simp add: ulp_def)

lemma round_to_mono:
  assumes x: "0 < x" and xy: "x \<le> y" and p: "0 < p"
  shows "round_to p emin x \<le> round_to p emin y"
proof -
  have y: "0 < y" using x xy by simp
  let ?ex = "max (binade x) emin" and ?ey = "max (binade y) emin"
  let ?qx = "ulp p emin x" and ?qy = "ulp p emin y"
  have qx: "?qx = 2 powr of_int (?ex - (int p - 1))" by (simp add: ulp_def)
  have qy: "?qy = 2 powr of_int (?ey - (int p - 1))" by (simp add: ulp_def)
  have rx: "round_to p emin x = of_int (round_half_even (x / ?qx)) * ?qx"
    using x by (simp add: round_to_def)
  have ry: "round_to p emin y = of_int (round_half_even (y / ?qy)) * ?qy"
    using y by (simp add: round_to_def)
  have le: "?ex \<le> ?ey" using binade_mono [OF x xy] by simp
  show ?thesis
  proof (cases "?ex = ?ey")
    case True
    then have q: "?qy = ?qx" by (simp add: ulp_def)
    have "x / ?qx \<le> y / ?qx" using xy less_imp_le [OF ulp_pos] by (rule divide_right_mono)
    then have "round_half_even (x / ?qx) \<le> round_half_even (y / ?qx)" by (rule rhe_mono)
    then have "of_int (round_half_even (x / ?qx)) * ?qx \<le> of_int (round_half_even (y / ?qx)) * ?qx"
      by (simp add: mult_right_mono)
    then show ?thesis unfolding rx ry q .
  next
    case False
    then have lt: "?ex + 1 \<le> ?ey" using le by simp
    then have ey: "?ey = binade y" by (simp add: max_def split: if_splits)
    have "x < 2 powr of_int (binade x + 1)" using binade_bounds(2) [OF x] .
    also have "\<dots> \<le> 2 powr of_int (?ex + 1)" by simp
    finally have "x / ?qx < 2 powr of_int (?ex + 1) / ?qx" by (intro divide_strict_right_mono ulp_pos)
    also have "2 powr of_int (?ex + 1) / ?qx = 2 powr of_int (int p)"
      unfolding qx by (simp add: powr_diff [symmetric])
    also have "\<dots> = of_int (2 ^ p)" by (simp add: powr_realpow)
    finally have "round_half_even (x / ?qx) \<le> round_half_even (of_int (2 ^ p))"
      by (intro rhe_mono) simp
    then have "round_half_even (x / ?qx) \<le> 2 ^ p" by (simp only: rhe_of_int)
    then have "real_of_int (round_half_even (x / ?qx)) \<le> real_of_int (2 ^ p)"
      by (simp only: of_int_le_iff)
    then have "round_to p emin x \<le> 2 ^ p * ?qx"
      unfolding rx by (simp add: mult_right_mono)
    also have "2 ^ p * ?qx = 2 powr of_int (?ex + 1)"
      unfolding qx by (simp add: powr_realpow [symmetric] powr_add [symmetric])
    also have "\<dots> \<le> 2 powr of_int ?ey" using lt by simp
    finally have up: "round_to p emin x \<le> 2 powr of_int ?ey" .
    have "2 powr of_int ?ey \<le> y" unfolding ey using binade_bounds(1) [OF y] .
    then have "2 powr of_int ?ey / ?qy \<le> y / ?qy" using less_imp_le [OF ulp_pos] by (rule divide_right_mono)
    moreover have "2 powr of_int ?ey / ?qy = of_int (2 ^ (p - 1))"
      unfolding qy using p by (simp add: powr_diff [symmetric] powr_realpow [symmetric] of_nat_diff)
    ultimately have "round_half_even (of_int (2 ^ (p - 1))) \<le> round_half_even (y / ?qy)"
      by (intro rhe_mono) simp
    then have "2 ^ (p - 1) \<le> round_half_even (y / ?qy)" by (simp only: rhe_of_int)
    then have "real_of_int (2 ^ (p - 1)) \<le> real_of_int (round_half_even (y / ?qy))"
      by (simp only: of_int_le_iff)
    then have "2 ^ (p - 1) * ?qy \<le> round_to p emin y"
      unfolding ry by (simp add: mult_right_mono)
    moreover have "2 ^ (p - 1) * ?qy = 2 powr of_int ?ey"
      unfolding qy using p by (simp add: powr_realpow [symmetric] powr_add [symmetric] of_nat_diff)
    ultimately have "2 powr of_int ?ey \<le> round_to p emin y" by simp
    with up show ?thesis by simp
  qed
qed


lemma round_to_exact:
  assumes "x = of_int n * ulp p emin x"
  shows "round_to p emin x = x"
proof (cases "x = 0")
  case True
  then show ?thesis by (simp add: round_to_def)
next
  case False
  have "x / ulp p emin x = of_int n"
    using assms ulp_pos [of p emin x] by (metis nonzero_mult_div_cancel_right less_irrefl)
  then show ?thesis using False assms by (simp add: round_to_def)
qed

lemma binade_powr [simp]: "binade (2 powr of_int k) = k"
  by (rule binade_eq) simp_all

lemma round_to_powr:
  assumes "emin - (int p - 1) \<le> k"  and "0 < p"
  shows "round_to p emin (2 powr of_int k) = 2 powr of_int k"
proof (rule round_to_exact)
  let ?n = "k - (max k emin - (int p - 1))"
  have n: "0 \<le> ?n" using assms by (simp add: max_def)
  have "(2::real) powr of_int k = 2 powr of_int ?n * 2 powr of_int (max k emin - (int p - 1))"
    by (simp add: powr_add [symmetric])
  also have "(2::real) powr of_int ?n = of_int (2 ^ nat ?n)"
    using n by (simp add: powr_realpow [symmetric])
  finally have e: "(2::real) powr of_int k =
      of_int (2 ^ nat ?n) * 2 powr of_int (max k emin - (int p - 1))" .
  have u: "ulp p emin (2 powr of_int k) = 2 powr of_int (max k emin - (int p - 1))"
    by (simp add: ulp_def)
  show "2 powr of_int k = of_int (2 ^ nat ?n) * ulp p emin (2 powr of_int k)"
    unfolding u by (rule e)
qed

lemma float32_is_double:
  assumes "round_to 24 (- 126) x = x"
  shows "round_to 53 (- 1022) x = x"
proof (cases "x = 0")
  case True
  then show ?thesis by (simp add: round_to_def)
next
  case False
  let ?b = "binade x"
  let ?d = "(max ?b (- 126) - 23) - (max ?b (- 1022) - 52)"
  have "x = of_int (round_half_even (x / ulp 24 (- 126) x)) * ulp 24 (- 126) x"
    using assms False by (simp add: round_to_def)
  then obtain n where n: "x = of_int n * ulp 24 (- 126) x" ..
  have d: "0 \<le> ?d" by (simp add: max_def)
  have "ulp 24 (- 126) x = 2 powr of_int ?d * ulp 53 (- 1022) x"
    by (simp add: ulp_def powr_add [symmetric])
  also have "(2::real) powr of_int ?d = of_int (2 ^ nat ?d)"
    using d by (simp add: powr_realpow [symmetric])
  finally have "x = of_int (n * 2 ^ nat ?d) * ulp 53 (- 1022) x"
    using n by simp
  then show ?thesis by (rule round_to_exact)
qed

lemma float32_min_positive:
  assumes "round_to 24 (- 126) x = x" and "0 < x"
  shows "2 powr (- 149) \<le> x"
proof -
  let ?n = "round_half_even (x / ulp 24 (- 126) x)"
  have x: "x = of_int ?n * ulp 24 (- 126) x"
    using assms by (simp add: round_to_def split: if_splits)
  have "0 < of_int ?n * ulp 24 (- 126) x" using x assms(2) by simp
  then have "0 < real_of_int ?n" using ulp_pos [of 24 "- 126" x] by (simp add: zero_less_mult_iff)
  then have "0 < ?n" by (simp only: of_int_0_less_iff)
  then have "1 \<le> ?n" by simp
  then have "1 \<le> real_of_int ?n" by (simp only: of_int_1_le_iff)
  moreover have "(2::real) powr (- 149) \<le> ulp 24 (- 126) x"
    by (simp add: ulp_def max_def)
  ultimately have "1 * 2 powr (- 149) \<le> of_int ?n * ulp 24 (- 126) x"
    by (intro mult_mono) simp_all
  then show ?thesis using x by simp
qed

lemma round_to_rel_error:
  assumes "2 powr (- 1022) \<le> x"
  shows "\<bar>round_to 53 (- 1022) x - x\<bar> \<le> x / 2 ^ 53"
proof -
  have x: "0 < x" using assms by (rule less_le_trans [rotated]) simp
  have "binade (2 powr of_int (- 1022)) \<le> binade x"
    using assms by (intro binade_mono) simp_all
  then have b: "- 1022 \<le> binade x" by (simp only: binade_powr)
  let ?q = "ulp 53 (- 1022) x"
  have q: "?q = 2 powr of_int (binade x) / 2 ^ 52"
    using b by (simp add: ulp_def max_def powr_diff)
  have "?q \<le> x / 2 ^ 52" unfolding q using binade_bounds(1) [OF x] by (simp add: divide_right_mono)
  have "\<bar>of_int (round_half_even (x / ?q)) - x / ?q\<bar> \<le> 1 / 2"
    using rhe_bounds [of "x / ?q"] by linarith
  then have "\<bar>of_int (round_half_even (x / ?q)) - x / ?q\<bar> * ?q \<le> 1 / 2 * ?q"
    by (intro mult_right_mono) simp_all
  moreover have "\<bar>of_int (round_half_even (x / ?q)) - x / ?q\<bar> * ?q =
        \<bar>round_to 53 (- 1022) x - x\<bar>"
  proof -
    have "\<bar>of_int (round_half_even (x / ?q)) - x / ?q\<bar> * ?q =
          \<bar>(of_int (round_half_even (x / ?q)) - x / ?q) * ?q\<bar>"
      by (simp add: abs_mult)
    also have "(of_int (round_half_even (x / ?q)) - x / ?q) * ?q =
          of_int (round_half_even (x / ?q)) * ?q - x"
      using ulp_pos [of 53 "- 1022" x] by (simp add: left_diff_distrib)
    finally show ?thesis using x by (simp add: round_to_def)
  qed
  ultimately have "\<bar>round_to 53 (- 1022) x - x\<bar> \<le> ?q / 2" by simp
  also have "\<dots> \<le> (x / 2 ^ 52) / 2" using \<open>?q \<le> x / 2 ^ 52\<close> by simp
  finally show ?thesis by simp
qed

lemma rd_pow [simp]: "rd (2 ^ n) = 2 ^ n"
  using round_to_powr [of "- 1022" 53 "int n"] by (simp add: powr_realpow)

lemma rd_one [simp]: "rd 1 = 1"
  using rd_pow [of 0] by simp

lemma rd_inverse_pow: "n \<le> 1074 \<Longrightarrow> rd (1 / 2 ^ n) = 1 / 2 ^ n"
  using round_to_powr [of "- 1022" 53 "- int n"]
  by (simp add: powr_minus powr_realpow divide_simps)

lemma double_sum:
  assumes a: "is_float32 a" "0 < a" and b: "is_float32 b" "0 < b"
  shows "a \<le> rd (a + b)" and "b \<le> rd (a + b)" and "rd (a + b) \<le> 2 ^ 129"
    and "round_double (a + b) = Finite (rd (a + b))"
proof -
  have ea: "rd a = a" and eb: "rd b = b"
    using a(1) b(1) by (simp_all add: is_float32_def float32_is_double)
  show 1: "a \<le> rd (a + b)"
    using round_to_mono [of a "a + b" 53 "- 1022"] a(2) b(2) by (simp add: ea)
  show "b \<le> rd (a + b)"
    using round_to_mono [of b "a + b" 53 "- 1022"] a(2) b(2) by (simp add: eb)
  have "(2::real) ^ 129 = 2 * 2 ^ 128" by simp
  moreover have "\<bar>a\<bar> < 2 ^ 128" "\<bar>b\<bar> < 2 ^ 128"
    using a(1) b(1) unfolding is_float32_def by blast+
  ultimately have "a + b \<le> 2 ^ 129" by linarith
  then have "rd (a + b) \<le> rd (2 ^ 129)"
    using a(2) b(2) by (intro round_to_mono) simp_all
  then show 3: "rd (a + b) \<le> 2 ^ 129" by (simp only: rd_pow)
  have "(2::real) ^ 129 < 2 ^ 1024" by simp
  then have "rd (a + b) < 2 ^ 1024" using 3 by linarith
  moreover have "- (2 ^ 1024) < rd (a + b)" using 1 a(2) by (simp add: less_le_trans [of _ 0])
  ultimately show "round_double (a + b) = Finite (rd (a + b))"
    by (simp add: round_double_def Let_def)
qed

lemma inferred_mean_double_value:
  assumes a: "is_float32 a" "0 < a" and b: "is_float32 b" "0 < b"
  shows "inferred_mean_double (Finite a) (Finite b) = Inr (Finite (rd (a / rd (a + b))))"
    and "1 / 2 ^ 278 \<le> a / rd (a + b)" and "a / rd (a + b) \<le> 1"
    and "1 / 2 ^ 278 \<le> rd (a / rd (a + b))" and "rd (a / rd (a + b)) \<le> 1"
proof -
  note s = double_sum [OF a b]
  have sp: "0 < rd (a + b)" using s(1) a(2) by linarith
  have "2 powr (- 149) \<le> a" using a by (simp add: is_float32_def float32_min_positive)
  then have amin: "1 / 2 ^ 149 \<le> a" by (simp add: powr_minus powr_realpow divide_simps)
  have "1 / 2 ^ 149 / 2 ^ 129 \<le> a / rd (a + b)"
    using amin s(3) sp by (intro frac_le) simp_all
  then show lo: "1 / 2 ^ 278 \<le> a / rd (a + b)" by simp
  show hi: "a / rd (a + b) \<le> 1" using s(1) sp by simp
  have "rd (1 / 2 ^ 278) \<le> rd (a / rd (a + b))"
    using lo by (intro round_to_mono) simp_all
  moreover have "rd (1 / 2 ^ 278) = 1 / 2 ^ 278" by (rule rd_inverse_pow) simp
  ultimately show rlo: "1 / 2 ^ 278 \<le> rd (a / rd (a + b))" by (simp only:)
  have "rd (a / rd (a + b)) \<le> rd 1"
    using hi a(2) sp by (intro round_to_mono) simp_all
  then show rhi: "rd (a / rd (a + b)) \<le> 1" by simp
  have "rd (a / rd (a + b)) < 2 ^ 1024" using rhi by (simp add: le_less_trans [of _ 1])
  moreover have "- (2 ^ 1024) < rd (a / rd (a + b))" using rlo by (simp add: less_le_trans [of _ 0])
  ultimately have "round_double (a / rd (a + b)) = Finite (rd (a / rd (a + b)))"
    by (simp add: round_double_def Let_def)
  then show "inferred_mean_double (Finite a) (Finite b) = Inr (Finite (rd (a / rd (a + b))))"
    using sp by (simp add: inferred_mean_double_def s(4))
qed


lemma rhe_near:
  assumes "\<bar>y - of_int n\<bar> < 1 / 2"
  shows "round_half_even y = n"
proof -
  have "\<bar>real_of_int (round_half_even y) - of_int n\<bar> < 1"
    using rhe_bounds [of y] assms by linarith
  then have "\<bar>real_of_int (round_half_even y - n)\<bar> < 1" by simp
  then have "\<bar>round_half_even y - n\<bar> < 1"
    by (metis of_int_abs of_int_less_1_iff)
  then show ?thesis by simp
qed

lemma round_to_eval:
  assumes x: "0 < x" and lo: "2 ^ k \<le> x * 2 ^ j" and hi: "x * 2 ^ j < 2 * 2 ^ k"
    and e: "emin \<le> int k - int j" and p: "int k + int c = int j + (int p - 1)"
    and n: "\<bar>x * 2 ^ c - of_int n\<bar> < 1 / 2"
  shows "round_to p emin x = of_int n / 2 ^ c"
proof -
  have "2 powr of_int (int k - int j) = (2::real) ^ k / 2 ^ j"
    by (simp add: powr_diff powr_realpow)
  moreover have "2 powr of_int (int k - int j + 1) = 2 * (2::real) ^ k / 2 ^ j"
    by (simp add: powr_diff powr_add powr_realpow)
  moreover have "(2::real) ^ k / 2 ^ j \<le> x" using lo by (simp add: pos_divide_le_eq)
  moreover have "x < 2 * (2::real) ^ k / 2 ^ j" using hi by (simp add: pos_less_divide_eq)
  ultimately have "binade x = int k - int j"
    using x by (intro binade_eq) (simp_all only:)
  then have "max (binade x) emin - (int p - 1) = - int c"
    using e p by simp
  then have "ulp p emin x = 2 powr of_int (- int c)"
    unfolding ulp_def by (simp only:)
  then have u: "ulp p emin x = 1 / 2 ^ c"
    by (simp add: powr_minus powr_realpow divide_simps)
  have "round_half_even (x / ulp p emin x) = n"
    using n by (intro rhe_near) (simp add: u)
  then show ?thesis using x by (simp add: round_to_def u)
qed

lemma approx_quot:
  fixes a c s m u :: real
  assumes a: "0 < a" and c: "0 < c" and u: "0 < u" "u < 1"
    and s: "\<bar>s - c\<bar> \<le> c * u" and m: "\<bar>m - a / s\<bar> \<le> a / s * u"
  shows "m * (1 - u) \<le> a / c * (1 + u)" and "a / c * (1 - u) \<le> m * (1 + u)"
proof -
  have s1: "c * (1 - u) \<le> s" and s2: "s \<le> c * (1 + u)"
    using s by (simp_all add: algebra_simps abs_le_iff)
  have cu: "0 < c * (1 - u)" using c u by simp
  then have sp: "0 < s" using s1 by linarith
  define t where "t = a / s"
  have "\<bar>m - t\<bar> \<le> t * u" using m by (simp only: t_def)
  then have "m \<le> t * (1 + u)" and "t * (1 - u) \<le> m"
    by (simp_all add: abs_le_iff algebra_simps)
  then have m1: "m \<le> a / s * (1 + u)" and m2: "a / s * (1 - u) \<le> m"
    by (simp_all only: t_def)
  have "a / s \<le> a / (c * (1 - u))"
    using a s1 cu by (intro divide_left_mono) simp_all
  then have "m \<le> a / (c * (1 - u)) * (1 + u)"
    using m1 u by (meson less_eq_real_def mult_right_mono order_trans add_pos_pos zero_less_one)
  then have "m * (1 - u) \<le> a / (c * (1 - u)) * (1 + u) * (1 - u)"
    using u by (intro mult_right_mono) simp_all
  also have "\<dots> = a / c * (1 + u)"
  proof -
    have "1 - u \<noteq> 0" using u by linarith
    then show ?thesis using c by (simp add: divide_simps)
  qed
  finally show "m * (1 - u) \<le> a / c * (1 + u)" .
  have "a / (c * (1 + u)) \<le> a / s"
    using a s2 sp by (intro divide_left_mono) simp_all
  then have "a / (c * (1 + u)) * (1 - u) \<le> a / s * (1 - u)"
    using u by (intro mult_right_mono) simp_all
  then have "a / (c * (1 + u)) * (1 - u) \<le> m" using m2 by linarith
  then have "a / (c * (1 + u)) * (1 - u) * (1 + u) \<le> m * (1 + u)"
    using u by (intro mult_right_mono) simp_all
  moreover have "a / (c * (1 + u)) * (1 - u) * (1 + u) = a / c * (1 - u)"
  proof -
    have "1 + u \<noteq> 0" using u by linarith
    then show ?thesis using c by (simp add: divide_simps)
  qed
  ultimately show "a / c * (1 - u) \<le> m * (1 + u)" by simp
qed

subsection \<open>Values at particular inputs\<close>

lemma is_float32_pow [simp]: "n < 128 \<Longrightarrow> is_float32 (2 ^ n)"
proof -
  assume n: "n < 128"
  have "round_to 24 (- 126) (2 ^ n) = 2 ^ n"
    using round_to_powr [of "- 126" 24 "int n"] by (simp add: powr_realpow)
  moreover have "(2::real) ^ n < 2 ^ 128" using n by (intro power_strict_increasing) simp_all
  ultimately show ?thesis by (simp add: is_float32_def del: power_strict_increasing_iff)
qed

lemma four_small: "(4::real) < 2 ^ 1024"
proof -
  have "(2::real) ^ 2 < 2 ^ 1024" by (intro power_strict_increasing) simp_all
  then show ?thesis by simp
qed


lemma is_float32_inverse_pow: "n \<le> 149 \<Longrightarrow> is_float32 (1 / 2 ^ n)"
proof -
  assume n: "n \<le> 149"
  have "round_to 24 (- 126) (1 / 2 ^ n) = 1 / 2 ^ n"
    using round_to_powr [of "- 126" 24 "- int n"] n
    by (simp add: powr_minus powr_realpow divide_simps)
  moreover have "\<bar>(1::real) / 2 ^ n\<bar> < 2 ^ 128"
  proof -
    have "(1::real) / 2 ^ n \<le> 1" "(0::real) \<le> 1 / 2 ^ n" by simp_all
    moreover have "(1::real) < 2 ^ 128" by (rule one_less_power) simp_all
    ultimately show ?thesis by linarith
  qed
  ultimately show ?thesis unfolding is_float32_def by (rule conjI)
qed

lemma round_double_small:
  "\<bar>rd x\<bar> \<le> 4 \<Longrightarrow> round_double x = Finite (rd x)"
proof -
  assume "\<bar>rd x\<bar> \<le> 4"
  then have "rd x < 2 ^ 1024" "- (2 ^ 1024) < rd x" using four_small by linarith+
  then show ?thesis unfolding round_double_def Let_def by (simp only: not_le [symmetric] if_False)
qed


lemma rd_one_plus_tiny: "rd (1 + 1 / 2 ^ 60) = 1"
  using round_to_eval [of "1 + 1 / 2 ^ 60" 0 0 "- 1022" 52 53 "2 ^ 52"] by simp


lemma rd_one_plus_tinier: "rd (1 + 1 / 2 ^ 61) = 1"
  using round_to_eval [of "1 + 1 / 2 ^ 61" 0 0 "- 1022" 52 53 "2 ^ 52"] by simp

lemma rd_two_plus_tiny: "rd (2 + 1 / 2 ^ 60) = 2"
  using round_to_eval [of "2 + 1 / 2 ^ 60" 1 0 "- 1022" 51 53 "2 ^ 52"] by simp

lemma round_double_1 [simp]: "round_double 1 = Finite 1"
  by (rule round_double_small [of 1, unfolded rd_one]) simp

lemma round_double_2 [simp]: "round_double 2 = Finite 2"
  using round_double_small [of 2] rd_pow [of 1] by simp

lemma mean_one_tiny: "inferred_mean_double (Finite 1) (Finite (1 / 2 ^ 60)) = Inr (Finite 1)"
proof -
  have "round_double (1 + 1 / 2 ^ 60) = Finite 1"
    using round_double_small [of "1 + 1 / 2 ^ 60"] by (simp only: rd_one_plus_tiny)
  then show ?thesis by (simp add: inferred_mean_double_def)
qed


lemma mean_one_tinier: "inferred_mean_double (Finite 1) (Finite (1 / 2 ^ 61)) = Inr (Finite 1)"
proof -
  have "round_double (1 + 1 / 2 ^ 61) = Finite 1"
    using round_double_small [of "1 + 1 / 2 ^ 61"] by (simp only: rd_one_plus_tinier)
  then show ?thesis by (simp add: inferred_mean_double_def)
qed

lemma mean_two_tiny: "inferred_mean_double (Finite 2) (Finite (1 / 2 ^ 60)) = Inr (Finite 1)"
proof -
  have "round_double (2 + 1 / 2 ^ 60) = Finite 2"
    using round_double_small [of "2 + 1 / 2 ^ 60"] by (simp only: rd_two_plus_tiny)
  then show ?thesis by (simp add: inferred_mean_double_def)
qed

lemma mean_one_one: "inferred_mean_double (Finite 1) (Finite 1) = Inr (Finite (1 / 2))"
proof -
  have "rd (1 / 2) = 1 / 2" using rd_inverse_pow [of 1] by simp
  then have "round_double (1 / 2) = Finite (1 / 2)"
    using round_double_small [of "1 / 2"] by simp
  then show ?thesis by (simp add: inferred_mean_double_def)
qed

lemma is_float32_3: "is_float32 3"
  using round_to_eval [of 3 1 0 "- 126" 22 24 "3 * 2 ^ 22"] by (simp add: is_float32_def)

lemma rd_three_quarters: "rd (3 / 4) = 3 / 4"
  using round_to_eval [of "3 / 4" 0 1 "- 1022" 53 53 "3 * 2 ^ 51"] by simp

lemma mean_three_one: "inferred_mean_double (Finite 3) (Finite 1) = Inr (Finite (3 / 4))"
proof -
  have "round_double 4 = Finite 4" using round_double_small [of 4] rd_pow [of 2] by simp
  moreover have "round_double (3 / 4) = Finite (3 / 4)"
    using round_double_small [of "3 / 4"] by (simp add: rd_three_quarters)
  ultimately show ?thesis by (simp add: inferred_mean_double_def)
qed

lemma mean_one_three: "inferred_mean_double (Finite 1) (Finite 3) = Inr (Finite (1 / 4))"
proof -
  have "round_double 4 = Finite 4" using round_double_small [of 4] rd_pow [of 2] by simp
  moreover have "rd (1 / 4) = 1 / 4" using rd_inverse_pow [of 2] by simp
  then have "round_double (1 / 4) = Finite (1 / 4)"
    using round_double_small [of "1 / 4"] by simp
  ultimately show ?thesis by (simp add: inferred_mean_double_def)
qed

lemma is_float32_three_halves: "is_float32 (3 / 2)"
  using round_to_eval [of "3 / 2" 0 0 "- 126" 23 24 "3 * 2 ^ 22"] by (simp add: is_float32_def)

lemma is_float32_five: "is_float32 (5 / 2 ^ 54)"
proof -
  have "round_to 24 (- 126) (5 / 2 ^ 54) = 5 / 2 ^ 54"
    using round_to_eval [of "5 / 2 ^ 54" 0 52 "- 126" 75 24 "5 * 2 ^ 21"] by simp
  then show ?thesis by (simp add: is_float32_def)
qed

lemma mean_not_monotone_in_alpha:
  "inferred_mean_double (Finite (3 / 2)) (Finite (5 / 2 ^ 54)) = Inr (Finite ((2 ^ 53 - 1) / 2 ^ 53))"
  "inferred_mean_double (Finite 2) (Finite (5 / 2 ^ 54)) = Inr (Finite ((2 ^ 53 - 2) / 2 ^ 53))"
proof -
  have s1: "rd (3 / 2 + 5 / 2 ^ 54) = (3 * 2 ^ 51 + 1) / 2 ^ 52"
    using round_to_eval [of "3 / 2 + 5 / 2 ^ 54" 0 0 "- 1022" 52 53 "3 * 2 ^ 51 + 1"] by simp
  have m1: "rd (3 / 2 / ((3 * 2 ^ 51 + 1) / 2 ^ 52)) = (2 ^ 53 - 1) / 2 ^ 53"
    using round_to_eval [of "3 / 2 / ((3 * 2 ^ 51 + 1) / 2 ^ 52)" 0 1 "- 1022" 53 53 "2 ^ 53 - 1"]
    by simp
  have s2: "rd (2 + 5 / 2 ^ 54) = (2 ^ 52 + 1) / 2 ^ 51"
    using round_to_eval [of "2 + 5 / 2 ^ 54" 1 0 "- 1022" 51 53 "2 ^ 52 + 1"] by simp
  have m2: "rd (2 / ((2 ^ 52 + 1) / 2 ^ 51)) = (2 ^ 53 - 2) / 2 ^ 53"
    using round_to_eval [of "2 / ((2 ^ 52 + 1) / 2 ^ 51)" 0 1 "- 1022" 53 53 "2 ^ 53 - 2"]
    by simp
  have r1: "round_double (3 / 2 + 5 / 2 ^ 54) = Finite ((3 * 2 ^ 51 + 1) / 2 ^ 52)"
    using round_double_small [of "3 / 2 + 5 / 2 ^ 54", unfolded s1] by simp
  have r2: "round_double (3 / 2 / ((3 * 2 ^ 51 + 1) / 2 ^ 52)) = Finite ((2 ^ 53 - 1) / 2 ^ 53)"
    using round_double_small [of "3 / 2 / ((3 * 2 ^ 51 + 1) / 2 ^ 52)", unfolded m1] by simp
  have r3: "round_double (2 + 5 / 2 ^ 54) = Finite ((2 ^ 52 + 1) / 2 ^ 51)"
    using round_double_small [of "2 + 5 / 2 ^ 54", unfolded s2] by simp
  have r4: "round_double (2 / ((2 ^ 52 + 1) / 2 ^ 51)) = Finite ((2 ^ 53 - 2) / 2 ^ 53)"
    using round_double_small [of "2 / ((2 ^ 52 + 1) / 2 ^ 51)", unfolded m2] by simp
  show "inferred_mean_double (Finite (3 / 2)) (Finite (5 / 2 ^ 54)) =
          Inr (Finite ((2 ^ 53 - 1) / 2 ^ 53))"
    unfolding inferred_mean_double_def double_add.simps r1 using r2 by simp
  show "inferred_mean_double (Finite 2) (Finite (5 / 2 ^ 54)) =
          Inr (Finite ((2 ^ 53 - 2) / 2 ^ 53))"
    unfolding inferred_mean_double_def double_add.simps r3 using r4 by simp
qed

text \<open>
  The last two values show that the computed mean is not even weakly increasing in
  \<open>alpha_q\<close>: from \<open>alpha_q = 3/2\<close> to \<open>alpha_q = 2\<close>, with
  \<open>beta_q = 5 / 2 ^ 54\<close> (all three are float32 values), it drops from
  \<open>1 - 2 ^ -53\<close> to \<open>1 - 2 ^ -52\<close>, because from 2 on the sum is rounded on a
  coarser grid.
\<close>

subsection \<open>Equal parameters\<close>

text \<open>
  At equal parameters the mean is exactly one half in double arithmetic as well: twice a
  float32 value is a double, and the quotient is \<open>1 / 2\<close>.
\<close>

lemma powr_int_Suc: "(2::real) powr of_int (k + 1) = 2 * 2 powr of_int k"
  by (simp add: powr_add)

lemma binade_double: "0 < x \<Longrightarrow> binade (2 * x) = binade x + 1"
proof (rule binade_eq)
  assume x: "0 < x"
  show "0 < 2 * x" using x by simp
  show "2 powr of_int (binade x + 1) \<le> 2 * x"
    unfolding powr_int_Suc using binade_bounds(1) [OF x] by simp
  show "2 * x < 2 powr of_int (binade x + 1 + 1)"
    unfolding powr_int_Suc [of "binade x + 1"] using binade_bounds(2) [OF x] by simp
qed

lemma rd_double_float32:
  assumes "round_to 24 (- 126) x = x" and "0 < x"
  shows "rd (2 * x) = 2 * x"
proof -
  let ?b = "binade x"
  let ?e32 = "max ?b (- 126) - 23" and ?e64 = "max (?b + 1) (- 1022) - 52"
  let ?d = "?e32 + 1 - ?e64"
  have "x = of_int (round_half_even (x / ulp 24 (- 126) x)) * ulp 24 (- 126) x"
    using assms by (simp add: round_to_def)
  then obtain n where n: "x = of_int n * ulp 24 (- 126) x" ..
  have d: "0 \<le> ?d" by (simp add: max_def)
  have u32: "ulp 24 (- 126) x = 2 powr of_int ?e32" by (simp add: ulp_def)
  have u64: "ulp 53 (- 1022) (2 * x) = 2 powr of_int ?e64"
    by (simp add: ulp_def binade_double [OF assms(2)])
  have "2 * ulp 24 (- 126) x = 2 powr of_int (?e32 + 1)"
    unfolding u32 by (rule powr_int_Suc [symmetric])
  also have "\<dots> = 2 powr of_int ?d * 2 powr of_int ?e64"
    by (simp add: powr_add [symmetric])
  also have "(2::real) powr of_int ?d = of_int (2 ^ nat ?d)"
    using d by (simp add: powr_realpow [symmetric])
  finally have t: "2 * ulp 24 (- 126) x = of_int (2 ^ nat ?d) * ulp 53 (- 1022) (2 * x)"
    unfolding u64 .
  have "2 * x = of_int n * (2 * ulp 24 (- 126) x)" using n by simp
  also have "\<dots> = of_int (n * 2 ^ nat ?d) * ulp 53 (- 1022) (2 * x)"
    unfolding t by simp
  finally show ?thesis by (rule round_to_exact)
qed

lemma inferred_mean_double_equal_params:
  assumes "is_float32 a" and "0 < a"
  shows "inferred_mean_double (Finite a) (Finite a) = Inr (Finite (1 / 2))"
proof -
  have s: "rd (a + a) = 2 * a"
    using rd_double_float32 [of a] assms by (simp add: is_float32_def)
  have "round_double (a + a) = Finite (rd (a + a))"
    using double_sum(4) [OF assms assms] .
  then have r: "round_double (2 * a) = Finite (2 * a)" using s by simp
  have "rd (1 / 2) = 1 / 2" using rd_inverse_pow [of 1] by simp
  then have h: "round_double (1 / 2) = Finite (1 / 2)"
    using round_double_small [of "1 / 2"] by simp
  show ?thesis
    using assms(2) by (simp add: inferred_mean_double_def r h)
qed

subsection \<open>Bounds and monotonicity\<close>

lemma normal_bound: "1 / 2 ^ 278 \<le> x \<Longrightarrow> 2 powr (- 1022) \<le> (x::real)"
proof -
  assume x: "1 / 2 ^ 278 \<le> x"
  have "(2::real) powr (- 1022) = 1 / 2 ^ 1022"
    using powr_realpow [of 2 1022] by (simp add: powr_minus divide_simps)
  moreover have "(1::real) / 2 ^ 1022 \<le> 1 / 2 ^ 278"
    by (intro divide_left_mono power_increasing) simp_all
  ultimately show ?thesis using x by linarith
qed

lemma mean_double_close:
  assumes a: "is_float32 a" "0 < a" and b: "is_float32 b" "0 < b"
  shows "rd (a / rd (a + b)) * (1 - 1 / 2 ^ 53) \<le> a / (a + b) * (1 + 1 / 2 ^ 53)"
    and "a / (a + b) * (1 - 1 / 2 ^ 53) \<le> rd (a / rd (a + b)) * (1 + 1 / 2 ^ 53)"
proof -
  note v = inferred_mean_double_value [OF a b]
  have "2 powr (- 149) \<le> a" using a by (simp add: is_float32_def float32_min_positive)
  moreover have "(2::real) powr (- 1022) \<le> 2 powr (- 149)" by (intro powr_mono) simp_all
  ultimately have "2 powr (- 1022) \<le> a + b" using b(2) by linarith
  then have s: "\<bar>rd (a + b) - (a + b)\<bar> \<le> (a + b) * (1 / 2 ^ 53)"
    using round_to_rel_error [of "a + b"] by simp
  have "2 powr (- 1022) \<le> a / rd (a + b)" using v(2) by (rule normal_bound)
  then have m: "\<bar>rd (a / rd (a + b)) - a / rd (a + b)\<bar> \<le> a / rd (a + b) * (1 / 2 ^ 53)"
    using round_to_rel_error [of "a / rd (a + b)"] by simp
  have c: "0 < a + b" using a(2) b(2) by simp
  have u: "(0::real) < 1 / 2 ^ 53" "(1::real) / 2 ^ 53 < 1" by simp_all
  show "rd (a / rd (a + b)) * (1 - 1 / 2 ^ 53) \<le> a / (a + b) * (1 + 1 / 2 ^ 53)"
    by (rule approx_quot(1) [OF a(2) c u s m])
  show "a / (a + b) * (1 - 1 / 2 ^ 53) \<le> rd (a / rd (a + b)) * (1 + 1 / 2 ^ 53)"
    by (rule approx_quot(2) [OF a(2) c u s m])
qed

lemma approx_chain:
  fixes e1 e2 m1 m2 u :: real
  assumes u: "0 < u" "u < 1" and e: "e1 < e2"
    and 1: "m1 * (1 - u) \<le> e1 * (1 + u)" and 2: "e2 * (1 - u) \<le> m2 * (1 + u)"
  shows "m1 * (1 - u)\<^sup>2 < m2 * (1 + u)\<^sup>2"
proof -
  have p: "0 < 1 - u" "0 < 1 + u" using u by simp_all
  have "m1 * (1 - u) * (1 - u) \<le> e1 * (1 + u) * (1 - u)"
    using 1 p(1) by (intro mult_right_mono) simp_all
  also have "\<dots> = e1 * ((1 + u) * (1 - u))" by (simp only: mult.assoc)
  also have "\<dots> < e2 * ((1 + u) * (1 - u))"
    using e p by (intro mult_strict_right_mono mult_pos_pos)
  also have "\<dots> = e2 * (1 - u) * (1 + u)" by (simp only: mult.assoc mult.commute [of "1 + u"])
  also have "\<dots> \<le> m2 * (1 + u) * (1 + u)"
    using 2 p(2) by (intro mult_right_mono) simp_all
  finally show ?thesis by (simp only: power2_eq_square mult.assoc)
qed

lemma mean_double_bounds:
  assumes "is_float32 a" and "0 < a" and "is_float32 b" and "0 < b"
  shows "\<exists>m. inferred_mean_double (Finite a) (Finite b) = Inr (Finite m) \<and> 0 < m \<and> m \<le> 1"
proof -
  note v = inferred_mean_double_value [OF assms]
  have "(0::real) < 1 / 2 ^ 278" by simp
  then have "0 < rd (a / rd (a + b))" using v(4) by (rule less_le_trans)
  then show ?thesis using v(1,5) by blast
qed

text \<open>
  Claim C4, as the code has it. For positive float32 values \<open>alpha_q\<close> and
  \<open>beta_q\<close> the mean computed in double arithmetic is produced without error, is a
  finite double, is strictly greater than 0 and is at most 1; and the value 1 is
  attained at some positive float32 values.
\<close>

theorem inferred_mean_double_in_unit_interval:
  assumes "is_float32 alpha_q" and "0 < alpha_q" and "is_float32 beta_q" and "0 < beta_q"
  shows "(\<exists>m. inferred_mean_double (Finite alpha_q) (Finite beta_q) = Inr (Finite m) \<and>
            0 < m \<and> m \<le> 1) \<and>
         (\<exists>a b. is_float32 a \<and> 0 < a \<and> is_float32 b \<and> 0 < b \<and>
            inferred_mean_double (Finite a) (Finite b) = Inr (Finite 1))"
proof
  show "\<exists>m. inferred_mean_double (Finite alpha_q) (Finite beta_q) = Inr (Finite m) \<and>
            0 < m \<and> m \<le> 1"
    using assms by (rule mean_double_bounds)
  have "is_float32 1 \<and> 0 < (1::real) \<and> is_float32 (1 / 2 ^ 60) \<and> 0 < (1::real) / 2 ^ 60 \<and>
        inferred_mean_double (Finite 1) (Finite (1 / 2 ^ 60)) = Inr (Finite 1)"
    using is_float32_pow [of 0] is_float32_inverse_pow [of 60] mean_one_tiny by simp
  then show "\<exists>a b. is_float32 a \<and> 0 < a \<and> is_float32 b \<and> 0 < b \<and>
            inferred_mean_double (Finite a) (Finite b) = Inr (Finite 1)"
    by blast
qed

theorem inferred_mean_double_in_unit_interval_witness:
  "is_float32 3 \<and> (0::real) < 3 \<and> is_float32 1 \<and> (0::real) < 1 \<and>
   (\<exists>m. inferred_mean_double (Finite 3) (Finite 1) = Inr (Finite m) \<and> 0 < m \<and> m \<le> 1) \<and>
   inferred_mean_double (Finite 3) (Finite 1) = Inr (Finite (3 / 4))"
  using inferred_mean_double_in_unit_interval [of 3 1] is_float32_pow [of 0] is_float32_3
  by (simp add: mean_three_one)

text \<open>
  The strict upper bound fails on the code: at \<open>alpha_q = 1\<close> and
  \<open>beta_q = 2 ^ -60\<close>, both positive float32 values, the sum rounds to 1 and the
  mean is exactly 1.
\<close>

theorem inferred_mean_double_reaches_one:
  "is_float32 1 \<and> is_float32 (1 / 2 ^ 60) \<and> (0::real) < 1 \<and> (0::real) < 1 / 2 ^ 60 \<and>
   inferred_mean_double (Finite 1) (Finite (1 / 2 ^ 60)) = Inr (Finite 1) \<and> \<not> (1::real) < 1"
  using is_float32_pow [of 0] is_float32_inverse_pow [of 60] mean_one_tiny by simp

lemma mean_double_monotone_weak:
  "(is_float32 a1 \<and> is_float32 a2 \<and> is_float32 b \<and> 0 < a1 \<and> a1 < a2 \<and> 0 < b \<longrightarrow>
      (\<exists>m1 m2. inferred_mean_double (Finite a1) (Finite b) = Inr (Finite m1) \<and>
               inferred_mean_double (Finite a2) (Finite b) = Inr (Finite m2) \<and>
               m1 * (1 - 1 / 2 ^ 53)\<^sup>2 < m2 * (1 + 1 / 2 ^ 53)\<^sup>2)) \<and>
   (is_float32 a \<and> is_float32 b1 \<and> is_float32 b2 \<and> 0 < a \<and> 0 < b1 \<and> b1 < b2 \<longrightarrow>
      (\<exists>m1 m2. inferred_mean_double (Finite a) (Finite b1) = Inr (Finite m1) \<and>
               inferred_mean_double (Finite a) (Finite b2) = Inr (Finite m2) \<and>
               m2 \<le> m1))"
proof (intro conjI impI)
  assume h: "is_float32 a1 \<and> is_float32 a2 \<and> is_float32 b \<and> 0 < a1 \<and> a1 < a2 \<and> 0 < b"
  then have a1: "is_float32 a1" "0 < a1" and a2: "is_float32 a2" "0 < a2"
    and b: "is_float32 b" "0 < b" and lt: "a1 < a2" by simp_all
  let ?m1 = "rd (a1 / rd (a1 + b))" and ?m2 = "rd (a2 / rd (a2 + b))"
  have u: "(0::real) < 1 / 2 ^ 53" "(1::real) / 2 ^ 53 < 1" by simp_all
  have e: "a1 / (a1 + b) < a2 / (a2 + b)"
    using a1(2) a2(2) b(2) lt by (simp add: field_simps)
  have "?m1 * (1 - 1 / 2 ^ 53)\<^sup>2 < ?m2 * (1 + 1 / 2 ^ 53)\<^sup>2"
    by (rule approx_chain [OF u e mean_double_close(1) [OF a1 b] mean_double_close(2) [OF a2 b]])
  then show "\<exists>m1 m2. inferred_mean_double (Finite a1) (Finite b) = Inr (Finite m1) \<and>
               inferred_mean_double (Finite a2) (Finite b) = Inr (Finite m2) \<and>
               m1 * (1 - 1 / 2 ^ 53)\<^sup>2 < m2 * (1 + 1 / 2 ^ 53)\<^sup>2"
    using inferred_mean_double_value(1) [OF a1 b] inferred_mean_double_value(1) [OF a2 b]
    by blast
next
  assume h: "is_float32 a \<and> is_float32 b1 \<and> is_float32 b2 \<and> 0 < a \<and> 0 < b1 \<and> b1 < b2"
  then have a: "is_float32 a" "0 < a" and b1: "is_float32 b1" "0 < b1"
    and b2: "is_float32 b2" "0 < b2" and lt: "b1 < b2" by simp_all
  have s: "rd (a + b1) \<le> rd (a + b2)"
    using a(2) b1(2) lt by (intro round_to_mono) simp_all
  have p: "0 < rd (a + b1)" using double_sum(1) [OF a b1] a(2) by linarith
  have "a / rd (a + b2) \<le> a / rd (a + b1)"
    using s p a(2) by (intro divide_left_mono) simp_all
  moreover have "0 < a / rd (a + b2)"
    using inferred_mean_double_value(2) [OF a b2] by (simp add: less_le_trans [of 0 "1 / 2 ^ 278"])
  ultimately have "rd (a / rd (a + b2)) \<le> rd (a / rd (a + b1))"
    by (intro round_to_mono) simp_all
  then show "\<exists>m1 m2. inferred_mean_double (Finite a) (Finite b1) = Inr (Finite m1) \<and>
               inferred_mean_double (Finite a) (Finite b2) = Inr (Finite m2) \<and> m2 \<le> m1"
    using inferred_mean_double_value(1) [OF a b1] inferred_mean_double_value(1) [OF a b2]
    by blast
qed


text \<open>
  Claim C5, as the code has it. For positive float32 values, in double arithmetic: with
  \<open>alpha_q\<close> fixed the mean does not increase when \<open>beta_q\<close> grows; with
  \<open>beta_q\<close> fixed and \<open>alpha_q\<close> growing the mean increases up to rounding, that
  is, the mean at the smaller \<open>alpha_q\<close> times \<open>(1 - 2 ^ -53)\<^sup>2\<close> is below the
  mean at the larger \<open>alpha_q\<close> times \<open>(1 + 2 ^ -53)\<^sup>2\<close>. Neither can be
  sharpened to the strict statement: there are positive float32 values where a larger
  \<open>alpha_q\<close> gives a smaller mean, and where a larger \<open>beta_q\<close> gives the same
  mean.
\<close>

theorem inferred_mean_double_monotone:
  "(is_float32 a1 \<and> is_float32 a2 \<and> is_float32 b \<and> 0 < a1 \<and> a1 < a2 \<and> 0 < b \<longrightarrow>
      (\<exists>m1 m2. inferred_mean_double (Finite a1) (Finite b) = Inr (Finite m1) \<and>
               inferred_mean_double (Finite a2) (Finite b) = Inr (Finite m2) \<and>
               m1 * (1 - 1 / 2 ^ 53)\<^sup>2 < m2 * (1 + 1 / 2 ^ 53)\<^sup>2)) \<and>
   (is_float32 a \<and> is_float32 b1 \<and> is_float32 b2 \<and> 0 < a \<and> 0 < b1 \<and> b1 < b2 \<longrightarrow>
      (\<exists>m1 m2. inferred_mean_double (Finite a) (Finite b1) = Inr (Finite m1) \<and>
               inferred_mean_double (Finite a) (Finite b2) = Inr (Finite m2) \<and>
               m2 \<le> m1)) \<and>
   (\<exists>x1 x2 y. is_float32 x1 \<and> is_float32 x2 \<and> is_float32 y \<and> 0 < x1 \<and> x1 < x2 \<and> 0 < y \<and>
      (\<exists>m1 m2. inferred_mean_double (Finite x1) (Finite y) = Inr (Finite m1) \<and>
               inferred_mean_double (Finite x2) (Finite y) = Inr (Finite m2) \<and> m2 < m1)) \<and>
   (\<exists>x y1 y2. is_float32 x \<and> is_float32 y1 \<and> is_float32 y2 \<and> 0 < x \<and> 0 < y1 \<and> y1 < y2 \<and>
      inferred_mean_double (Finite x) (Finite y1) = inferred_mean_double (Finite x) (Finite y2))"
proof -
  have up: "\<exists>x1 x2 y. is_float32 x1 \<and> is_float32 x2 \<and> is_float32 y \<and> 0 < x1 \<and> x1 < x2 \<and>
      0 < y \<and>
      (\<exists>m1 m2. inferred_mean_double (Finite x1) (Finite y) = Inr (Finite m1) \<and>
               inferred_mean_double (Finite x2) (Finite y) = Inr (Finite m2) \<and> m2 < m1)"
  proof (intro exI conjI)
    show "is_float32 (3 / 2)" by (rule is_float32_three_halves)
    show "is_float32 2" using is_float32_pow [of 1] by simp
    show "is_float32 (5 / 2 ^ 54)" by (rule is_float32_five)
    show "inferred_mean_double (Finite (3 / 2)) (Finite (5 / 2 ^ 54)) =
            Inr (Finite ((2 ^ 53 - 1) / 2 ^ 53))"
      by (rule mean_not_monotone_in_alpha(1))
    show "inferred_mean_double (Finite 2) (Finite (5 / 2 ^ 54)) =
            Inr (Finite ((2 ^ 53 - 2) / 2 ^ 53))"
      by (rule mean_not_monotone_in_alpha(2))
  qed simp_all
  have eq: "\<exists>x y1 y2. is_float32 x \<and> is_float32 y1 \<and> is_float32 y2 \<and> 0 < x \<and> 0 < y1 \<and>
      y1 < y2 \<and>
      inferred_mean_double (Finite x) (Finite y1) = inferred_mean_double (Finite x) (Finite y2)"
  proof (intro exI conjI)
    show "is_float32 1" using is_float32_pow [of 0] by simp
    show "is_float32 (1 / 2 ^ 61)" by (rule is_float32_inverse_pow) simp
    show "is_float32 (1 / 2 ^ 60)" by (rule is_float32_inverse_pow) simp
    show "inferred_mean_double (Finite 1) (Finite (1 / 2 ^ 61)) =
          inferred_mean_double (Finite 1) (Finite (1 / 2 ^ 60))"
      by (simp only: mean_one_tiny mean_one_tinier)
  qed simp_all
  show ?thesis
    using mean_double_monotone_weak [of a1 a2 b a b1 b2] up eq by (intro conjI) blast+
qed

theorem inferred_mean_double_monotone_witness:
  "(is_float32 1 \<and> is_float32 3 \<and> (0::real) < 1 \<and> (1::real) < 3) \<and>
   inferred_mean_double (Finite 1) (Finite 1) = Inr (Finite (1 / 2)) \<and>
   inferred_mean_double (Finite 3) (Finite 1) = Inr (Finite (3 / 4)) \<and>
   inferred_mean_double (Finite 1) (Finite 3) = Inr (Finite (1 / 4)) \<and>
   (\<exists>m1 m2. inferred_mean_double (Finite 1) (Finite 1) = Inr (Finite m1) \<and>
            inferred_mean_double (Finite 3) (Finite 1) = Inr (Finite m2) \<and>
            m1 * (1 - 1 / 2 ^ 53)\<^sup>2 < m2 * (1 + 1 / 2 ^ 53)\<^sup>2) \<and>
   (\<exists>m1 m2. inferred_mean_double (Finite 1) (Finite 1) = Inr (Finite m1) \<and>
            inferred_mean_double (Finite 1) (Finite 3) = Inr (Finite m2) \<and> m2 \<le> m1)"
proof -
  have f: "is_float32 1" "is_float32 3" using is_float32_pow [of 0] is_float32_3 by simp_all
  note t0 = inferred_mean_double_monotone [of 1 3 1 1 1 3]
  note t = conjI [OF t0 [THEN conjunct1] t0 [THEN conjunct2, THEN conjunct1]]
  have "\<exists>m1 m2. inferred_mean_double (Finite 1) (Finite 1) = Inr (Finite m1) \<and>
            inferred_mean_double (Finite 3) (Finite 1) = Inr (Finite m2) \<and>
            m1 * (1 - 1 / 2 ^ 53)\<^sup>2 < m2 * (1 + 1 / 2 ^ 53)\<^sup>2"
    using t f by simp
  moreover have "\<exists>m1 m2. inferred_mean_double (Finite 1) (Finite 1) = Inr (Finite m1) \<and>
            inferred_mean_double (Finite 1) (Finite 3) = Inr (Finite m2) \<and> m2 \<le> m1"
    using t f by simp
  ultimately show ?thesis
    using f mean_one_one mean_three_one mean_one_three by (intro conjI) simp_all
qed

text \<open>
  Strict monotonicity fails on the code in both directions: the mean is
  1 at \<open>alpha_q = 1\<close> and at \<open>alpha_q = 2\<close> for \<open>beta_q = 2 ^ -60\<close>, and it
  is 1 at \<open>beta_q = 2 ^ -61\<close> and at \<open>beta_q = 2 ^ -60\<close> for \<open>alpha_q = 1\<close>.
\<close>

theorem inferred_mean_double_plateau:
  "is_float32 1 \<and> is_float32 2 \<and> is_float32 (1 / 2 ^ 60) \<and> is_float32 (1 / 2 ^ 61) \<and>
   (0::real) < 1 \<and> (1::real) < 2 \<and> (0::real) < 1 / 2 ^ 60 \<and>
   inferred_mean_double (Finite 1) (Finite (1 / 2 ^ 60)) = Inr (Finite 1) \<and>
   inferred_mean_double (Finite 2) (Finite (1 / 2 ^ 60)) = Inr (Finite 1) \<and>
   (0::real) < 1 / 2 ^ 61 \<and> (1::real) / 2 ^ 61 < 1 / 2 ^ 60 \<and>
   inferred_mean_double (Finite 1) (Finite (1 / 2 ^ 61)) = Inr (Finite 1) \<and>
   \<not> (1::real) < 1"
  using is_float32_pow [of 0] is_float32_pow [of 1] is_float32_inverse_pow [of 60]
    is_float32_inverse_pow [of 61] mean_one_tiny mean_two_tiny mean_one_tinier
  by simp

section \<open>Properties of the model\<close>

subsection \<open>Site names are distinct\<close>

lemma str_nat_nonempty: "str_nat n \<noteq> []"
  by (subst str_nat.simps) simp

lemma digit_char_inj:
  fixes a b :: nat
  assumes a: "a < 10" and b: "b < 10" and e: "(char_of (48 + a) :: char) = char_of (48 + b)"
  shows "a = b"
proof -
  have "of_char (char_of (48 + a) :: char) = (of_char (char_of (48 + b) :: char) :: nat)"
    using e by simp
  then have "(48 + a) mod 256 = (48 + b) mod 256"
    by (simp only: of_char_of)
  then show ?thesis using a b by simp
qed

lemma str_nat_inj: "str_nat n = str_nat m \<Longrightarrow> n = m"
proof (induction n arbitrary: m rule: str_nat.induct)
  case (1 n)
  show ?case
  proof (cases "n < 10")
    case nlt: True
    show ?thesis
    proof (cases "m < 10")
      case True
      with nlt "1.prems" show ?thesis
        by (subst (asm) str_nat.simps, subst (asm) (2) str_nat.simps) (auto dest: digit_char_inj)
    next
      case False
      with nlt "1.prems" show ?thesis
        using str_nat_nonempty [of "m div 10"]
        by (subst (asm) str_nat.simps, subst (asm) (2) str_nat.simps) auto
    qed
  next
    case nge: False
    show ?thesis
    proof (cases "m < 10")
      case True
      with nge "1.prems" show ?thesis
        using str_nat_nonempty [of "n div 10"]
        by (subst (asm) str_nat.simps, subst (asm) (2) str_nat.simps) auto
    next
      case False
      have e: "str_nat (n div 10) @ [char_of (48 + n mod 10)] =
               str_nat (m div 10) @ [char_of (48 + m mod 10)]"
        using "1.prems" nge False
        by (subst (asm) str_nat.simps, subst (asm) (2) str_nat.simps) simp
      then have "str_nat (n div 10) = str_nat (m div 10)"
        and c: "(char_of (48 + n mod 10) :: char) = char_of (48 + m mod 10)"
        by simp_all
      then have d: "n div 10 = m div 10" using "1.IH" nge by blast
      have "n mod 10 = m mod 10" using c by (rule digit_char_inj [rotated 2]) simp_all
      with d show ?thesis by (metis div_mult_mod_eq)
    qed
  qed
qed

lemma obs_name_neq: "i \<noteq> k \<Longrightarrow> ''obs_'' @ str_nat i \<noteq> ''obs_'' @ str_nat k"
  using str_nat_inj by auto

subsection \<open>The trace of the model\<close>

lemma obs_loop_trace:
  assumes f: "0 \<le> f" "f \<le> 1"
  shows "\<forall>i\<ge>k. ''obs_'' @ str_nat i \<notin> site_name ` set tr \<Longrightarrow>
         drop k data = xs \<Longrightarrow>
         obs_loop f data (enumerate k xs) tr =
           Inr (tr @ map (\<lambda>(i, x). obs_site f i x) (enumerate k xs))"
proof (induction xs arbitrary: k tr)
  case Nil
  then show ?case by simp
next
  case (Cons x xs)
  from Cons.prems(2) have k: "k < length data"
    by (metis drop_eq_Nil2 list.distinct(1) not_le)
  from Cons.prems(2) k have x: "data ! k = x"
    by (metis Cons_nth_drop_Suc list.inject)
  from Cons.prems(2) have d: "drop (Suc k) data = xs"
    by (metis drop_Suc tl_drop list.sel(3))
  let ?tr = "tr @ [obs_site f k x]"
  have fresh: "\<forall>i\<ge>Suc k. ''obs_'' @ str_nat i \<notin> site_name ` set ?tr"
    using Cons.prems(1) obs_name_neq [of _ k] by (auto simp: obs_site_def)
  have "obs_loop f data (enumerate k (x # xs)) tr = obs_loop f data (enumerate (Suc k) xs) ?tr"
    using f k x Cons.prems(1)
    by (simp add: dist_Bernoulli_def pyro_sample_def obs_site_def)
  also have "\<dots> = Inr (?tr @ map (\<lambda>(i, x). obs_site f i x) (enumerate (Suc k) xs))"
    using fresh d by (rule Cons.IH)
  finally show ?case by simp
qed

lemma model_trace:
  assumes "0 \<le> f" "f \<le> 1"
  shows "model f data =
           Inr (latent_site (Beta 10 10) f # map (\<lambda>(i, x). obs_site f i x) (enumerate 0 data))"
proof -
  have "obs_loop f data (enumerate 0 data) [latent_site (Beta 10 10) f] =
        Inr ([latent_site (Beta 10 10) f] @ map (\<lambda>(i, x). obs_site f i x) (enumerate 0 data))"
    using assms by (rule obs_loop_trace) (simp_all add: latent_site_def)
  then show ?thesis
    by (simp add: model_def dist_Beta_def alpha0_def beta0_def pyro_sample_def latent_site_def)
qed

lemma log_prob_sum_obs_sites:
  "set xs \<subseteq> {0, 1} \<Longrightarrow>
   log_prob_sum lg (map (\<lambda>(i, x). obs_site f i x) (enumerate k xs)) =
     Inr (\<Sum>x\<leftarrow>xs. bernoulli_log_density f x)"
  by (induction xs arbitrary: k) (auto simp: obs_site_def)

lemma model_log_prob_eq:
  assumes "0 \<le> f" and "f \<le> 1" and "set data \<subseteq> {0, 1}"
  shows "model_log_prob lg f data = Inr (logProbModel lg f data)"
  using assms
  by (simp add: model_log_prob_def model_trace log_prob_sum_obs_sites latent_site_def
      logProbModel_def)

lemma data_main_binary: "set data_main \<subseteq> {0, 1}"
  by (auto simp: data_main_def)

text \<open>
  Claim C2. For a fairness strictly between 0 and 1 and a sequence of observations, each
  0.0 or 1.0, the log-probability of the model's trace is the log-density of the fairness
  under Beta(10, 10) plus the sum over the observations of their log-densities under
  Bernoulli(fairness); the model does not raise, every observation contributes exactly
  once, and the result is a function of the fairness, the observations and the fixed
  hyperparameters alone.
\<close>

theorem model_log_prob_is_prior_plus_likelihood:
  assumes "0 < fairness" and "fairness < 1" and "set observations \<subseteq> {0, 1}"
  shows "model_log_prob lg fairness observations =
           Inr (beta_log_density lg alpha0 beta0 fairness +
                (\<Sum>x\<leftarrow>observations. bernoulli_log_density fairness x)) \<and>
         alpha0 = 10 \<and> beta0 = 10 \<and>
         model_log_prob lg fairness observations = Inr (logProbModel lg fairness observations)"
  using assms model_log_prob_eq [of fairness observations lg]
  by (simp add: logProbModel_def alpha0_def beta0_def)

theorem model_log_prob_is_prior_plus_likelihood_witness:
  "(0::real) < 1 / 2 \<and> (1::real) / 2 < 1 \<and> set data_main \<subseteq> {0, 1} \<and>
   model_log_prob (\<lambda>x. 0) (1 / 2) data_main = Inr (logProbModel (\<lambda>x. 0) (1 / 2) data_main) \<and>
   logProbModel (\<lambda>x. 0) (1 / 2) data_main = 28 * ln (1 / 2)"
  using model_log_prob_is_prior_plus_likelihood [of "1 / 2" data_main "\<lambda>x. 0"] data_main_binary
  by (simp add: logProbModel_def beta_log_density_def bernoulli_log_density_def data_main_def
      sum_list_replicate alpha0_def beta0_def)

section \<open>Properties of the subsampled model\<close>

lemma data_variant_eq: "data_variant = Inr (replicate 600 1 @ replicate 400 0)"
  by (simp add: data_variant_def setitem_prefix_def ones_def zeros_def)

lemma iarange_100_50:
  assumes "mset perm = mset [0..<100]"
  shows "length (iarange perm 100 50) = 50" and "set (iarange perm 100 50) \<subseteq> {..<100}"
proof -
  have len: "length perm = 100"
    using assms by (metis size_mset length_upt diff_zero)
  have st: "set perm = {..<100}"
    using assms by (metis set_mset_mset set_upt atLeast0LessThan)
  show "length (iarange perm 100 50) = 50" using len by (simp add: iarange_def)
  show "set (iarange perm 100 50) \<subseteq> {..<100}"
    using st set_take_subset [of 50 perm] by (simp add: iarange_def)
qed

lemma index_select_ones:
  assumes "set ind \<subseteq> {..<n}"
  shows "index_select (replicate n 1 @ ys) ind = Inr (replicate (length ind) 1)"
proof -
  have a: "list_all (\<lambda>i. i < length (replicate n (1::real) @ ys)) ind"
    using assms by (auto simp: list_all_iff)
  have "map (\<lambda>i. (replicate n (1::real) @ ys) ! i) ind = map (\<lambda>i. 1) ind"
    using assms by (intro map_cong) (auto simp: nth_append)
  then show ?thesis using a by (simp add: index_select_def map_replicate_const)
qed

lemma model_variant_trace:
  assumes "mset perm = mset [0..<100]" "0 \<le> f" "f \<le> 1"
  shows "model_variant perm f (replicate 600 1 @ replicate 400 0) =
    Inr [latent_site (Beta 10 10) f,
         \<lparr>site_name = ''data_loop'', site_fn = Subsample 100 50,
          site_value = map real (iarange perm 100 50), site_is_observed = False, site_scale = 1\<rparr>,
         \<lparr>site_name = ''obs'', site_fn = Bernoulli f,
          site_value = replicate 50 1, site_is_observed = True, site_scale = 2\<rparr>]"
proof -
  have "set (iarange perm 100 50) \<subseteq> {..<600}"
    using iarange_100_50(2) [OF assms(1)] by auto
  then have "index_select (replicate 600 1 @ replicate 400 0) (iarange perm 100 50) =
             Inr (replicate 50 1)"
    using index_select_ones [of "iarange perm 100 50" 600 "replicate 400 0"]
      iarange_100_50(1) [OF assms(1)] by simp
  then show ?thesis
    using assms(2,3)
    by (simp add: model_variant_def dist_Beta_def alpha0_def beta0_def pyro_sample_def
        dist_Bernoulli_def latent_site_def Let_def)
qed

text \<open>
  Claim C10. In the notebook with the subsampling plate, whatever permutation of
  \<open>range(100)\<close> the plate draws, it hands out 50 indices, each below 100; the data
  tensor has 1000 entries, the first 600 equal to 1.0 and the last 400 equal to 0.0; so
  every entry the plate selects is 1.0, the tensor of observations the model conditions
  on consists of fifty 1.0s, and no zero-valued entry is ever selected.
\<close>

theorem variant_conditions_only_on_ones:
  assumes "mset perm = mset [0..<100]" and "0 \<le> f" and "f \<le> 1"
  shows "\<exists>d ind tr. data_variant = Inr d \<and> iarange perm 100 50 = ind \<and>
           length d = 1000 \<and> take 600 d = replicate 600 1 \<and> drop 600 d = replicate 400 0 \<and>
           length ind = 50 \<and> list_all (\<lambda>i. i < 100 \<and> d ! i = 1) ind \<and>
           index_select d ind = Inr (replicate 50 1) \<and>
           model_variant perm f d = Inr tr \<and>
           map site_value (filter site_is_observed tr) = [replicate 50 1]"
proof -
  let ?d = "replicate 600 (1::real) @ replicate 400 0"
  let ?ind = "iarange perm 100 50"
  have s: "set ?ind \<subseteq> {..<100}" by (rule iarange_100_50(2) [OF assms(1)])
  then have s6: "set ?ind \<subseteq> {..<600}" by auto
  have l: "length ?ind = 50" by (rule iarange_100_50(1) [OF assms(1)])
  have a: "list_all (\<lambda>i. i < 100 \<and> ?d ! i = 1) ?ind"
    using s by (auto simp: list_all_iff nth_append)
  have i: "index_select ?d ?ind = Inr (replicate 50 1)"
    using index_select_ones [OF s6, of "replicate 400 0"] l by simp
  show ?thesis
    using a i l
    by (simp add: data_variant_eq model_variant_trace [OF assms] latent_site_def)
qed

theorem variant_conditions_only_on_ones_witness:
  "mset (rev [0..<100]) = mset [0..<100] \<and> (0::real) \<le> 1 / 2 \<and> (1::real) / 2 \<le> 1 \<and>
   iarange (rev [0..<100]) 100 50 = rev [50..<100] \<and>
   (\<exists>d ind tr. data_variant = Inr d \<and> rev [50..<100] = ind \<and>
           length d = 1000 \<and> take 600 d = replicate 600 1 \<and> drop 600 d = replicate 400 0 \<and>
           length ind = 50 \<and> list_all (\<lambda>i. i < 100 \<and> d ! i = 1) ind \<and>
           index_select d ind = Inr (replicate 50 1) \<and>
           model_variant (rev [0..<100]) (1 / 2) d = Inr tr \<and>
           map site_value (filter site_is_observed tr) = [replicate 50 1])"
  using variant_conditions_only_on_ones [of "rev [0..<100]" "1 / 2"]
  by (simp add: iarange_def take_rev)

section \<open>Properties of the guide and of the loop\<close>

lemma guide_ok:
  assumes "0 \<le> f" "f \<le> 1"
  shows "\<exists>a b ps'. guide f ps = Inr ([latent_site (Beta a b) f], ps') \<and> 0 < a \<and> 0 < b \<and>
           ps' ''alpha_q'' \<noteq> None \<and> ps' ''beta_q'' \<noteq> None"
  by (simp add: guide_def pyro_param_def dist_Beta_def pyro_sample_def latent_site_def
      split: option.splits)

lemma guide_initial:
  "guide f Map.empty =
     Inr ([latent_site (Beta 15 15) f], [''alpha_q'' \<mapsto> ln 15, ''beta_q'' \<mapsto> ln 15])"
  by (simp add: guide_def pyro_param_def dist_Beta_def pyro_sample_def latent_site_def)

lemma log_prob_sum_latent:
  assumes "0 \<le> f" "f \<le> 1"
  shows "log_prob_sum lg [latent_site (Beta a b) f] = Inr (beta_log_density lg a b f)"
  using assms by (simp add: latent_site_def)

lemma svi_step_ok:
  assumes f: "0 \<le> draw eng k" "draw eng k \<le> 1"
    and m: "model_fn (draw eng k) = Inr mtr" "log_prob_sum (lgamma eng) mtr = Inr lpm"
  shows "\<exists>loss ps'. svi_step eng model_fn k ps = Inr (loss, ps') \<and>
           ps' ''alpha_q'' \<noteq> None \<and> ps' ''beta_q'' \<noteq> None"
proof -
  obtain a b ps1 where g: "guide (draw eng k) ps = Inr ([latent_site (Beta a b) (draw eng k)], ps1)"
    and r: "ps1 ''alpha_q'' \<noteq> None" "ps1 ''beta_q'' \<noteq> None"
    using guide_ok [OF f, of ps] by blast
  have q: "log_prob_sum (lgamma eng) [latent_site (Beta a b) (draw eng k)] =
             Inr (beta_log_density (lgamma eng) a b (draw eng k))"
    using f by (rule log_prob_sum_latent)
  have "svi_step eng model_fn k ps =
          Inr (- (lpm - beta_log_density (lgamma eng) a b (draw eng k)),
               \<lambda>name. map_option (update eng k name) (ps1 name))"
    by (simp add: svi_step_def g m q del: log_prob_sum.simps)
  then show ?thesis using r by auto
qed

lemma registered_positive:
  "ps ''alpha_q'' \<noteq> None \<Longrightarrow> ps ''beta_q'' \<noteq> None \<Longrightarrow> params_positive ps"
  by (auto simp: params_positive_def param_value_def)

lemma svi_loop_runs:
  assumes st: "\<And>k ps. \<exists>loss ps'. step_fn k ps = Inr (loss, ps') \<and> P ps'"
  shows "step < n \<or> (step = n \<and> P ps) \<Longrightarrow>
         \<exists>ps'. svi_loop step_fn n step (c, ps) = Inr (c + (n - step), ps') \<and> P ps'"
proof (induction "n - step" arbitrary: step c ps)
  case 0
  then show ?case by (subst svi_loop.simps) auto
next
  case (Suc d)
  then have lt: "step < n" by simp
  obtain loss ps1 where s1: "step_fn step ps = Inr (loss, ps1)" and p1: "P ps1"
    using st by blast
  have "d = n - Suc step" using Suc.hyps(2) by simp
  moreover have "Suc step < n \<or> (Suc step = n \<and> P ps1)" using lt p1 by auto
  ultimately obtain ps' where
    "svi_loop step_fn n (Suc step) (Suc c, ps1) = Inr (Suc c + (n - Suc step), ps')" and "P ps'"
    using Suc.hyps(1) by blast
  then show ?case
    using lt s1 by (subst svi_loop.simps) (auto simp: Suc_diff_Suc)
qed

lemma svi_loop_split:
  "step \<le> k \<Longrightarrow> k \<le> n \<Longrightarrow>
   svi_loop step_fn n step s =
     (case svi_loop step_fn k step s of Inl e \<Rightarrow> Inl e | Inr s' \<Rightarrow> svi_loop step_fn n k s')"
proof (induction "k - step" arbitrary: step s)
  case 0
  obtain c ps where s: "s = (c, ps)" by (cases s)
  from 0 have "step = k" by simp
  then show ?case unfolding s by (subst (2) svi_loop.simps) simp
next
  case (Suc d)
  obtain c ps where s: "s = (c, ps)" by (cases s)
  from Suc have lt: "step < k" "step < n" by simp_all
  have ih: "\<And>s'. svi_loop step_fn n (Suc step) s' =
     (case svi_loop step_fn k (Suc step) s' of Inl e \<Rightarrow> Inl e | Inr s'' \<Rightarrow> svi_loop step_fn n k s'')"
    using Suc.hyps(1) [of "Suc step"] Suc.hyps(2) Suc.prems by simp
  show ?case
    unfolding s
    by (subst svi_loop.simps, subst (2) svi_loop.simps)
       (simp add: lt ih split: sum.splits prod.splits)
qed

lemma log_prob_subsample: "log_prob lg (Subsample n m) xs = Inr 0"
  by (induction xs) simp_all

lemma log_prob_replicate:
  "in_support d x \<Longrightarrow> log_prob lg d (replicate n x) = Inr (real n * log_density lg d x)"
  by (induction n) (simp_all add: algebra_simps)

lemma main_step_ok:
  assumes f: "0 < draw eng k" "draw eng k < 1" and d: "set data \<subseteq> {0, 1}"
  shows "\<exists>loss ps'. svi_step eng (\<lambda>f. model f data) k ps = Inr (loss, ps') \<and> params_positive ps'"
proof -
  have f': "0 \<le> draw eng k" "draw eng k \<le> 1" using f by simp_all
  obtain mtr where m: "model (draw eng k) data = Inr mtr"
    using model_trace [OF f'] by blast
  have "model_log_prob (lgamma eng) (draw eng k) data =
          Inr (logProbModel (lgamma eng) (draw eng k) data)"
    using f' d by (rule model_log_prob_eq)
  then have l: "log_prob_sum (lgamma eng) mtr = Inr (logProbModel (lgamma eng) (draw eng k) data)"
    by (simp add: model_log_prob_def m)
  show ?thesis
    using svi_step_ok [of eng k "\<lambda>f. model f data", OF f' m l, of ps] registered_positive
    by blast
qed

lemma variant_step_ok:
  assumes f: "0 < draw eng k" "draw eng k < 1" and p: "mset (randperm eng k) = mset [0..<100]"
  shows "\<exists>loss ps'.
           svi_step eng (\<lambda>f. model_variant (randperm eng k) f (replicate 600 1 @ replicate 400 0))
             k ps = Inr (loss, ps') \<and> params_positive ps'"
proof -
  have f': "0 \<le> draw eng k" "draw eng k \<le> 1" using f by simp_all
  note m = model_variant_trace [OF p f']
  have b: "log_prob (lgamma eng) (Bernoulli (draw eng k)) (replicate 50 1) =
             Inr (50 * bernoulli_log_density (draw eng k) 1)"
    using log_prob_replicate [of "Bernoulli (draw eng k)" 1 "lgamma eng" 50] by simp
  have l: "log_prob_sum (lgamma eng)
             [latent_site (Beta 10 10) (draw eng k),
              \<lparr>site_name = ''data_loop'', site_fn = Subsample 100 50,
               site_value = map real (iarange (randperm eng k) 100 50),
               site_is_observed = False, site_scale = 1\<rparr>,
              \<lparr>site_name = ''obs'', site_fn = Bernoulli (draw eng k),
               site_value = replicate 50 1, site_is_observed = True, site_scale = 2\<rparr>] =
           Inr (beta_log_density (lgamma eng) 10 10 (draw eng k) +
                2 * (50 * bernoulli_log_density (draw eng k) 1))"
    using f' by (simp add: latent_site_def log_prob_subsample b)
  show ?thesis
    using svi_step_ok
      [of eng k "\<lambda>f. model_variant (randperm eng k) f (replicate 600 1 @ replicate 400 0)",
       OF f' m l, of ps]
      registered_positive
    by blast
qed

lemma svi_step_constant_engine:
  "\<exists>loss. svi_step constant_engine (\<lambda>f. model f data_main) 0 Map.empty =
     Inr (loss, [''alpha_q'' \<mapsto> ln 15 - 1, ''beta_q'' \<mapsto> ln 15 - 1])"
proof -
  have f: "(0::real) \<le> 1 / 2" "(1::real) / 2 \<le> 1" by simp_all
  have l: "log_prob_sum (\<lambda>x. 0)
             (latent_site (Beta 10 10) (1 / 2) #
              map (\<lambda>(i, x). obs_site (1 / 2) i x) (enumerate 0 data_main)) =
           Inr (logProbModel (\<lambda>x. 0) (1 / 2) data_main)"
    using model_log_prob_eq [OF f data_main_binary, of "\<lambda>x. 0"]
    by (simp add: model_log_prob_def model_trace [OF f] del: log_prob_sum.simps)
  have u: "(\<lambda>name. map_option (\<lambda>u. u - 1) ([''alpha_q'' \<mapsto> ln 15, ''beta_q'' \<mapsto> ln (15::real)] name)) =
           [''alpha_q'' \<mapsto> ln 15 - 1, ''beta_q'' \<mapsto> ln 15 - 1]"
    by (rule ext) simp
  show ?thesis
    by (simp add: svi_step_def constant_engine_def guide_initial model_trace [OF f] l
        log_prob_sum_latent [OF f] u del: log_prob_sum.simps fun_upd_apply)
qed

lemma svi_loop_constant_engine:
  "svi_loop (svi_step constant_engine (\<lambda>f. model f data_main)) 1 0 (0, Map.empty) =
     Inr (1, [''alpha_q'' \<mapsto> ln 15 - 1, ''beta_q'' \<mapsto> ln 15 - 1])"
proof -
  obtain loss where s: "svi_step constant_engine (\<lambda>f. model f data_main) 0 Map.empty =
     Inr (loss, [''alpha_q'' \<mapsto> ln 15 - 1, ''beta_q'' \<mapsto> ln 15 - 1])"
    using svi_step_constant_engine by blast
  show ?thesis
    by (subst svi_loop.simps, simp add: s, subst svi_loop.simps, simp)
qed

text \<open>
  Claim C3. The first run of the guide registers \<open>alpha_q\<close> and \<open>beta_q\<close> with the
  value 15 each. Whatever the engine draws (inside the unit interval, as a Beta sample
  is) and however its optimizer moves the unconstrained values, after each of the steps
  \<open>1, \<dots>, n\<close> of a run of \<open>n\<close> steps on 0.0/1.0 observations the run has not
  raised, and the values of \<open>alpha_q\<close> and \<open>beta_q\<close> read from the store are
  strictly positive: the store keeps logarithms and reads them back through the
  exponential.
\<close>

theorem variational_parameters_stay_positive:
  assumes "\<forall>k. 0 < draw eng k \<and> draw eng k < 1" and "set data \<subseteq> {0, 1}"
    and "1 \<le> k" and "k \<le> n"
  shows "(\<exists>tr ps. guide (draw eng 0) Map.empty = Inr (tr, ps) \<and>
            map site_fn tr = [Beta 15 15] \<and>
            param_value ps ''alpha_q'' = Some 15 \<and> param_value ps ''beta_q'' = Some 15) \<and>
         (\<exists>ps a b.
            svi_loop (svi_step eng (\<lambda>f. model f data)) k 0 (0, Map.empty) = Inr (k, ps) \<and>
            svi_loop (svi_step eng (\<lambda>f. model f data)) n 0 (0, Map.empty) =
              svi_loop (svi_step eng (\<lambda>f. model f data)) n k (k, ps) \<and>
            param_value ps ''alpha_q'' = Some a \<and> 0 < a \<and>
            param_value ps ''beta_q'' = Some b \<and> 0 < b)"
proof
  show "\<exists>tr ps. guide (draw eng 0) Map.empty = Inr (tr, ps) \<and>
            map site_fn tr = [Beta 15 15] \<and>
            param_value ps ''alpha_q'' = Some 15 \<and> param_value ps ''beta_q'' = Some 15"
    by (simp add: guide_initial latent_site_def param_value_def)
next
  let ?step = "svi_step eng (\<lambda>f. model f data)"
  have st: "\<And>j ps. \<exists>loss ps'. ?step j ps = Inr (loss, ps') \<and> params_positive ps'"
    using assms(1,2) main_step_ok by blast
  have "0 < k" using assms(3) by simp
  then obtain ps where r: "svi_loop ?step k 0 (0, Map.empty) = Inr (0 + (k - 0), ps)"
    and p: "params_positive ps"
    using svi_loop_runs [of ?step params_positive 0 k Map.empty 0, OF st] by blast
  have "svi_loop ?step n 0 (0, Map.empty) = svi_loop ?step n k (k, ps)"
    using svi_loop_split [of 0 k n ?step "(0, Map.empty)"] assms(4) r by simp
  moreover obtain a b where "param_value ps ''alpha_q'' = Some a" "0 < a"
    "param_value ps ''beta_q'' = Some b" "0 < b"
    using p by (auto simp: params_positive_def split: option.splits)
  ultimately show "\<exists>ps a b.
            svi_loop ?step k 0 (0, Map.empty) = Inr (k, ps) \<and>
            svi_loop ?step n 0 (0, Map.empty) = svi_loop ?step n k (k, ps) \<and>
            param_value ps ''alpha_q'' = Some a \<and> 0 < a \<and>
            param_value ps ''beta_q'' = Some b \<and> 0 < b"
    using r by auto
qed

theorem variational_parameters_stay_positive_witness:
  "(\<forall>k. 0 < draw constant_engine k \<and> draw constant_engine k < 1) \<and>
   set data_main \<subseteq> {0, 1} \<and> (1::nat) \<le> 1 \<and> 1 \<le> n_steps_main \<and>
   svi_loop (svi_step constant_engine (\<lambda>f. model f data_main)) 1 0 (0, Map.empty) =
     Inr (1, [''alpha_q'' \<mapsto> ln 15 - 1, ''beta_q'' \<mapsto> ln 15 - 1]) \<and>
   run_main constant_engine =
     svi_loop (svi_step constant_engine (\<lambda>f. model f data_main)) n_steps_main 1
       (1, [''alpha_q'' \<mapsto> ln 15 - 1, ''beta_q'' \<mapsto> ln 15 - 1]) \<and>
   param_value [''alpha_q'' \<mapsto> ln 15 - 1, ''beta_q'' \<mapsto> ln 15 - 1] ''alpha_q'' =
     Some (15 / exp 1) \<and>
   param_value [''alpha_q'' \<mapsto> ln 15 - 1, ''beta_q'' \<mapsto> ln 15 - 1] ''beta_q'' =
     Some (15 / exp 1) \<and>
   (0::real) < 15 / exp 1"
proof -
  have h: "\<forall>k. 0 < draw constant_engine k \<and> draw constant_engine k < 1"
    by (simp add: constant_engine_def)
  have n: "(1::nat) \<le> 1" "1 \<le> n_steps_main" by (simp_all add: n_steps_main_def)
  obtain ps where
    q: "svi_loop (svi_step constant_engine (\<lambda>f. model f data_main)) 1 0 (0, Map.empty) = Inr (1, ps)"
    and r: "svi_loop (svi_step constant_engine (\<lambda>f. model f data_main)) n_steps_main 0
              (0, Map.empty) =
            svi_loop (svi_step constant_engine (\<lambda>f. model f data_main)) n_steps_main 1 (1, ps)"
    using variational_parameters_stay_positive [OF h data_main_binary n] by blast
  have ps: "ps = [''alpha_q'' \<mapsto> ln 15 - 1, ''beta_q'' \<mapsto> ln 15 - 1]"
    using q unfolding svi_loop_constant_engine by simp
  have v: "param_value [''alpha_q'' \<mapsto> ln 15 - 1, ''beta_q'' \<mapsto> ln 15 - 1] ''alpha_q'' =
             Some (15 / exp 1)"
    "param_value [''alpha_q'' \<mapsto> ln 15 - 1, ''beta_q'' \<mapsto> ln 15 - 1] ''beta_q'' =
             Some (15 / exp 1)"
    "(0::real) < 15 / exp 1"
    by (simp_all add: param_value_def exp_diff)
  show ?thesis
    using h n data_main_binary svi_loop_constant_engine r [unfolded ps] v
    unfolding run_main_def by (intro conjI)
qed

lemma svi_loop_store_after:
  assumes st: "\<And>k ps. \<exists>loss ps'. step_fn k ps = Inr (loss, ps')"
  shows "k \<le> n \<Longrightarrow>
         svi_loop step_fn n k (c, store_after step_fn ps0 k) =
           Inr (c + (n - k), store_after step_fn ps0 n)"
proof (induction "n - k" arbitrary: k c)
  case 0
  then have "k = n" by simp
  then show ?case by (subst svi_loop.simps) simp
next
  case (Suc d)
  then have lt: "k < n" by simp
  obtain loss ps1 where s1: "step_fn k (store_after step_fn ps0 k) = Inr (loss, ps1)"
    using st by blast
  then have nx: "store_after step_fn ps0 (Suc k) = ps1" by simp
  have "svi_loop step_fn n (Suc k) (Suc c, store_after step_fn ps0 (Suc k)) =
          Inr (Suc c + (n - Suc k), store_after step_fn ps0 n)"
    using Suc.hyps(2) lt by (intro Suc.hyps(1)) simp_all
  then show ?case
    using lt s1 by (subst svi_loop.simps) (simp add: nx Suc_diff_Suc)
qed

lemma svi_loop_trajectory:
  assumes st: "\<And>k ps. \<exists>loss ps'. step_fn k ps = Inr (loss, ps')"
  shows "\<exists>\<sigma>. \<sigma> 0 = ps0 \<and>
           (\<forall>k<n. \<exists>loss. step_fn k (\<sigma> k) = Inr (loss, \<sigma> (Suc k))) \<and>
           svi_loop step_fn n 0 (0, ps0) = Inr (n, \<sigma> n)"
proof -
  let ?\<sigma> = "store_after step_fn ps0"
  have 1: "?\<sigma> 0 = ps0" by simp
  have 2: "\<forall>k<n. \<exists>loss. step_fn k (?\<sigma> k) = Inr (loss, ?\<sigma> (Suc k))"
  proof (intro allI impI)
    fix k
    obtain loss ps1 where "step_fn k (?\<sigma> k) = Inr (loss, ps1)"
      using st by blast
    then show "\<exists>loss. step_fn k (?\<sigma> k) = Inr (loss, ?\<sigma> (Suc k))"
      by simp
  qed
  have 3: "svi_loop step_fn n 0 (0, ps0) = Inr (n, ?\<sigma> n)"
    using svi_loop_store_after [OF st, where k = 0 and n = n and c = 0] by simp
  show ?thesis
    by (intro exI [of _ ?\<sigma>] conjI 1 2 3)
qed

text \<open>
  Claim C7. The loop makes exactly \<open>n_steps\<close> calls of \<open>svi.step\<close>, one after the
  other, and then ends: starting from the empty store, call \<open>k\<close> runs on the store
  that call \<open>k - 1\<close> left, for every \<open>k\<close> below \<open>n_steps\<close>, and the loop returns
  the store the last call left together with the count \<open>n_steps\<close>; that is 1000 calls
  in the main notebook, 5000 in the notebook with the plate, and \<open>n\<close> for every
  \<open>n\<close> and every sequence of 0.0/1.0 observations. This holds for every engine,
  whatever losses its steps return and however its optimizer moves the parameters: the
  loop looks at neither.
\<close>

theorem loop_runs_exactly_n_steps:
  assumes "\<forall>k. 0 < draw eng k \<and> draw eng k < 1"
    and "\<forall>k. mset (randperm eng k) = mset [0..<100]"
  shows "(\<exists>\<sigma>. \<sigma> 0 = Map.empty \<and>
            (\<forall>k<n_steps_main. \<exists>loss.
               svi_step eng (\<lambda>f. model f data_main) k (\<sigma> k) = Inr (loss, \<sigma> (Suc k))) \<and>
            run_main eng = Inr (n_steps_main, \<sigma> n_steps_main)) \<and>
         n_steps_main = 1000 \<and>
         (\<exists>d \<sigma>. data_variant = Inr d \<and> \<sigma> 0 = Map.empty \<and>
            (\<forall>k<n_steps_variant. \<exists>loss.
               svi_step eng (\<lambda>f. model_variant (randperm eng k) f d) k (\<sigma> k) =
                 Inr (loss, \<sigma> (Suc k))) \<and>
            run_variant eng = Inr (n_steps_variant, \<sigma> n_steps_variant)) \<and>
         n_steps_variant = 5000 \<and>
         (\<forall>n data. set data \<subseteq> {0, 1} \<longrightarrow>
            (\<exists>\<sigma>. \<sigma> 0 = Map.empty \<and>
               (\<forall>k<n. \<exists>loss.
                  svi_step eng (\<lambda>f. model f data) k (\<sigma> k) = Inr (loss, \<sigma> (Suc k))) \<and>
               svi_loop (svi_step eng (\<lambda>f. model f data)) n 0 (0, Map.empty) = Inr (n, \<sigma> n)))"
proof -
  let ?d = "replicate 600 (1::real) @ replicate 400 0"
  let ?vstep = "\<lambda>k. svi_step eng (\<lambda>f. model_variant (randperm eng k) f ?d) k"
  have vst: "\<And>j ps. \<exists>loss ps'. ?vstep j ps = Inr (loss, ps')"
    using assms variant_step_ok by blast
  have st: "\<And>j ps. \<exists>loss ps'. svi_step eng (\<lambda>f. model f data) j ps = Inr (loss, ps')"
    if "set data \<subseteq> {0, 1}" for data
    using assms(1) main_step_ok [OF _ _ that] by blast
  have g: "\<exists>\<sigma>. \<sigma> 0 = Map.empty \<and>
               (\<forall>k<n. \<exists>loss.
                  svi_step eng (\<lambda>f. model f data) k (\<sigma> k) = Inr (loss, \<sigma> (Suc k))) \<and>
               svi_loop (svi_step eng (\<lambda>f. model f data)) n 0 (0, Map.empty) = Inr (n, \<sigma> n)"
    if "set data \<subseteq> {0, 1}" for n data
    by (rule svi_loop_trajectory [OF st [OF that]])
  have m: "\<exists>\<sigma>. \<sigma> 0 = Map.empty \<and>
            (\<forall>k<n_steps_main. \<exists>loss.
               svi_step eng (\<lambda>f. model f data_main) k (\<sigma> k) = Inr (loss, \<sigma> (Suc k))) \<and>
            run_main eng = Inr (n_steps_main, \<sigma> n_steps_main)"
    unfolding run_main_def by (rule g [OF data_main_binary])
  have "\<exists>\<sigma>. \<sigma> 0 = Map.empty \<and>
            (\<forall>k<n_steps_variant. \<exists>loss. ?vstep k (\<sigma> k) = Inr (loss, \<sigma> (Suc k))) \<and>
            svi_loop ?vstep n_steps_variant 0 (0, Map.empty) = Inr (n_steps_variant, \<sigma> n_steps_variant)"
    by (rule svi_loop_trajectory [OF vst])
  then have v: "\<exists>d \<sigma>. data_variant = Inr d \<and> \<sigma> 0 = Map.empty \<and>
            (\<forall>k<n_steps_variant. \<exists>loss.
               svi_step eng (\<lambda>f. model_variant (randperm eng k) f d) k (\<sigma> k) =
                 Inr (loss, \<sigma> (Suc k))) \<and>
            run_variant eng = Inr (n_steps_variant, \<sigma> n_steps_variant)"
    by (simp add: run_variant_def data_variant_eq)
  show ?thesis
    using m v g by (simp add: n_steps_main_def n_steps_variant_def)
qed

theorem loop_runs_exactly_n_steps_witness:
  "(\<forall>k. 0 < draw constant_engine k \<and> draw constant_engine k < 1) \<and>
   (\<forall>k. mset (randperm constant_engine k) = mset [0..<100]) \<and>
   (0::nat) < n_steps_main \<and>
   (\<exists>\<sigma>. \<sigma> 0 = Map.empty \<and>
        \<sigma> (Suc 0) = [''alpha_q'' \<mapsto> ln 15 - 1, ''beta_q'' \<mapsto> ln 15 - 1] \<and>
        run_main constant_engine = Inr (1000, \<sigma> 1000)) \<and>
   (\<exists>\<sigma>. \<sigma> (0::nat) = Map.empty \<and> run_variant constant_engine = Inr (5000, \<sigma> 5000))"
proof -
  have h: "\<forall>k. 0 < draw constant_engine k \<and> draw constant_engine k < 1"
    "\<forall>k. mset (randperm constant_engine k) = mset [0..<100]"
    by (simp_all add: constant_engine_def)
  note t = loop_runs_exactly_n_steps [OF h]
  note t1 = t [THEN conjunct1]
  note t2 = t [THEN conjunct2, THEN conjunct1]
  note t3 = t [THEN conjunct2, THEN conjunct2, THEN conjunct1]
  note t4 = t [THEN conjunct2, THEN conjunct2, THEN conjunct2, THEN conjunct1]
  obtain \<sigma> where s0: "\<sigma> 0 = Map.empty"
    and ch: "\<forall>k<n_steps_main. \<exists>loss.
               svi_step constant_engine (\<lambda>f. model f data_main) k (\<sigma> k) = Inr (loss, \<sigma> (Suc k))"
    and r: "run_main constant_engine = Inr (n_steps_main, \<sigma> n_steps_main)"
    using t1 by (elim exE conjE)
  have pos: "(0::nat) < n_steps_main" by (simp add: n_steps_main_def)
  obtain loss where
    "svi_step constant_engine (\<lambda>f. model f data_main) 0 (\<sigma> 0) = Inr (loss, \<sigma> (Suc 0))"
    using ch [rule_format, OF pos] by (elim exE)
  moreover obtain loss' where
    "svi_step constant_engine (\<lambda>f. model f data_main) 0 Map.empty =
       Inr (loss', [''alpha_q'' \<mapsto> ln 15 - 1, ''beta_q'' \<mapsto> ln 15 - 1])"
    using svi_step_constant_engine by (elim exE)
  ultimately have s1: "\<sigma> (Suc 0) = [''alpha_q'' \<mapsto> ln 15 - 1, ''beta_q'' \<mapsto> ln 15 - 1]"
    unfolding s0 by (simp del: fun_upd_apply)
  have r': "run_main constant_engine = Inr (1000, \<sigma> 1000)"
    using r unfolding t2 .
  have m: "\<exists>\<sigma>. \<sigma> 0 = Map.empty \<and>
        \<sigma> (Suc 0) = [''alpha_q'' \<mapsto> ln 15 - 1, ''beta_q'' \<mapsto> ln 15 - 1] \<and>
        run_main constant_engine = Inr (1000, \<sigma> 1000)"
    by (intro exI [of _ \<sigma>] conjI s0 s1 r')
  obtain d \<tau> where v0: "\<tau> 0 = Map.empty"
    and vr: "run_variant constant_engine = Inr (n_steps_variant, \<tau> n_steps_variant)"
    using t3 by (elim exE conjE)
  have vr': "run_variant constant_engine = Inr (5000, \<tau> 5000)"
    using vr unfolding t4 .
  have v: "\<exists>\<sigma>. \<sigma> (0::nat) = Map.empty \<and> run_variant constant_engine = Inr (5000, \<sigma> 5000)"
    by (intro exI [of _ \<tau>] conjI v0 vr')
  show ?thesis using h pos m v by (intro conjI)
qed

end
